theory Spec2Isabelle
  imports Main "HOL-Library.Sublist" "HOL-Library.AList"
begin

section \<open>Data model\<close>

text \<open>
  The values that \<^verbatim>\<open>json.load\<close> produces: \<^verbatim>\<open>None\<close>, booleans, integers, floats,
  strings, lists and dictionaries. A dictionary keeps its keys in insertion order, so it is
  an association list: \<^verbatim>\<open>d.get(k, default)\<close> is a lookup of the first binding and
  \<^verbatim>\<open>d[k] = v\<close> is \<open>AList.update\<close>, which overwrites the binding of an existing key
  in place and appends a new key at the end, as Python does.

  Strings are lists of the 8-bit characters of HOL, read as code points below 256.
\<close>

datatype pyfloat = Float int int | Inf bool | NaN

datatype json =
    JNull
  | JBool bool
  | JInt int
  | JFloat pyfloat
  | JStr string
  | JArr "json list"
  | JObj "(string \<times> json) list"

text \<open>
  How a call ends: it returns a value, it calls \<^verbatim>\<open>sys.exit(code)\<close>, or an exception
  that nothing catches leaves it.
\<close>

datatype pyexc = AttributeError

datatype 'a outcome = Returned 'a | Exited nat | Raised pyexc

text \<open>\<^verbatim>\<open>d.get(key, default)\<close> on a dictionary.\<close>

definition dict_get :: "(string \<times> json) list \<Rightarrow> string \<Rightarrow> json \<Rightarrow> json" where
  "dict_get d key dflt = (case map_of d key of None \<Rightarrow> dflt | Some v \<Rightarrow> v)"

text \<open>\<^verbatim>\<open>d[key] = v\<close> on a dictionary.\<close>

definition dict_set :: "(string \<times> json) list \<Rightarrow> string \<Rightarrow> json \<Rightarrow> (string \<times> json) list" where
  "dict_set d key v = AList.update key v d"

text \<open>Python's truth value of a JSON value, as \<^verbatim>\<open>if image_url:\<close> takes it.\<close>

fun truthy :: "json \<Rightarrow> bool" where
  "truthy JNull = False"
| "truthy (JBool b) = b"
| "truthy (JInt i) = (i \<noteq> 0)"
| "truthy (JFloat (Float m e)) = (m \<noteq> 0)"
| "truthy (JFloat (Inf s)) = True"
| "truthy (JFloat NaN) = True"
| "truthy (JStr s) = (s \<noteq> [])"
| "truthy (JArr xs) = (xs \<noteq> [])"
| "truthy (JObj d) = (d \<noteq> [])"

text \<open>\<^verbatim>\<open>str(n)\<close> for a length or an index: the decimal digits of a natural number.\<close>

definition digit_char :: "nat \<Rightarrow> char" where
  "digit_char d = ''0123456789'' ! d"

fun str_nat :: "nat \<Rightarrow> string" where
  "str_nat n = (if n < 10 then [digit_char n] else str_nat (n div 10) @ [digit_char (n mod 10)])"

declare str_nat.simps [simp del]

section \<open>The ID tool (replace_ids.py)\<close>

subsection \<open>replace_ids_in_json\<close>

definition mismatch_message :: "nat \<Rightarrow> nat \<Rightarrow> string" where
  "mismatch_message n_ids n_entries =
     ''Error: Number of IDs ('' @ str_nat n_ids @
     '') does not match number of JSON entries ('' @ str_nat n_entries @ '').''"

definition no_id_warning :: "nat \<Rightarrow> string" where
  "no_id_warning index =
     ''Warning: Entry #'' @ str_nat index @ '' does not have an 'id' field.''"

text \<open>
  A loop over a list that mutates the entry at hand returns the entries after the loop,
  the lines printed and the way the loop ended. \<open>step_entry\<close> puts one finished entry
  and the lines printed for it in front of what the rest of the loop gives.
\<close>

definition step_entry ::
  "json \<Rightarrow> string list \<Rightarrow> json list \<times> string list \<times> 'a outcome \<Rightarrow>
   json list \<times> string list \<times> 'a outcome" where
  "step_entry e ls r = (case r of (es, out, res) \<Rightarrow> (e # es, ls @ out, res))"

text \<open>
  The body of the \<^verbatim>\<open>for\<close> loop of \<^verbatim>\<open>replace_ids_in_json\<close> on one pair of
  \<^verbatim>\<open>enumerate(zip(json_data, new_ids), start=1)\<close>: the entry after the body and the
  lines printed. \<^verbatim>\<open>entry.get\<close> exists on dictionaries only: on any other value the
  attribute lookup raises \<^verbatim>\<open>AttributeError\<close>.
\<close>

definition replace_id_body :: "nat \<Rightarrow> json \<Rightarrow> string \<Rightarrow> pyexc + json \<times> string list" where
  "replace_id_body index entry new_id =
     (case entry of
        JObj d \<Rightarrow>
          (case dict_get d ''id'' JNull of
             JNull \<Rightarrow> Inr (entry, [no_id_warning index])
           | _ \<Rightarrow> Inr (JObj (dict_set d ''id'' (JStr new_id)), []))
      | _ \<Rightarrow> Inl AttributeError)"

text \<open>
  The loop itself. The entries come from \<^verbatim>\<open>json.load\<close>, so they are separate objects
  and the assignment \<^verbatim>\<open>entry['id'] = new_id\<close> changes the entry at this position only.
  Nothing catches the \<^verbatim>\<open>AttributeError\<close>: the entries from there on stay as they are.
  \<^verbatim>\<open>zip\<close> stops at the shorter list.
\<close>

fun replace_ids_loop ::
  "nat \<Rightarrow> json list \<Rightarrow> string list \<Rightarrow> json list \<times> string list \<times> unit outcome" where
  "replace_ids_loop index [] new_ids = ([], [], Returned ())"
| "replace_ids_loop index (entry # rest) [] = (entry # rest, [], Returned ())"
| "replace_ids_loop index (entry # rest) (new_id # ids) =
     (case replace_id_body index entry new_id of
        Inl e \<Rightarrow> (entry # rest, [], Raised e)
      | Inr (entry', ls) \<Rightarrow> step_entry entry' ls (replace_ids_loop (Suc index) rest ids))"

text \<open>
  \<^verbatim>\<open>replace_ids_in_json(json_data, new_ids)\<close>: the entries of \<^verbatim>\<open>json_data\<close> after
  the call, the lines printed, and the way the call ended (it returns \<^verbatim>\<open>json_data\<close>
  itself, the first component).
\<close>

definition replace_ids_in_json ::
  "json list \<Rightarrow> string list \<Rightarrow> json list \<times> string list \<times> unit outcome" where
  "replace_ids_in_json json_data new_ids =
     (if length json_data \<noteq> length new_ids
      then (json_data, [mismatch_message (length new_ids) (length json_data)], Exited 1)
      else replace_ids_loop 1 json_data new_ids)"

subsection \<open>Reading and writing files\<close>

text \<open>
  What \<^verbatim>\<open>open\<close> and reading the file give: the file is missing
  (\<^verbatim>\<open>FileNotFoundError\<close>), another exception with its text (the file cannot be read or
  is not UTF-8), or the decoded text of the file.
\<close>

datatype file_read = FileNotFound | ReadError string | FileText string

text \<open>
  A text file opened with the default \<^verbatim>\<open>newline=None\<close> translates the line ends
  \<^verbatim>\<open>\r\n\<close> and \<^verbatim>\<open>\r\<close> to \<^verbatim>\<open>\n\<close>; iterating over the file gives the
  lines, each with its \<^verbatim>\<open>\n\<close> (the last line has none when the text does not end
  with one).
\<close>

abbreviation LF :: char where "LF \<equiv> CHR 0x0A"
abbreviation CR :: char where "CR \<equiv> CHR 0x0D"

fun universal_newlines :: "string \<Rightarrow> string" where
  "universal_newlines [] = []"
| "universal_newlines [c] = (if c = CR then [LF] else [c])"
| "universal_newlines (c # c' # cs) =
     (if c = CR \<and> c' = LF then LF # universal_newlines cs
      else if c = CR then LF # universal_newlines (c' # cs)
      else c # universal_newlines (c' # cs))"

fun split_lines :: "string \<Rightarrow> string \<Rightarrow> string list" where
  "split_lines cur [] = (if cur = [] then [] else [cur])"
| "split_lines cur (c # cs) =
     (if c = LF then (cur @ [c]) # split_lines [] cs else split_lines (cur @ [c]) cs)"

definition file_lines :: "string \<Rightarrow> string list" where
  "file_lines text = split_lines [] (universal_newlines text)"

text \<open>
  \<^verbatim>\<open>str.isspace\<close> on one character, for the code points below 256: tab, line feed,
  vertical tab, form feed, carriage return, the four separators 0x1C to 0x1F, space, next
  line (0x85) and no-break space (0xA0). \<^verbatim>\<open>s.strip()\<close> removes the whitespace at both
  ends.
\<close>

definition is_space :: "char \<Rightarrow> bool" where
  "is_space c = (c \<in> set [CHR 0x09, CHR 0x0A, CHR 0x0B, CHR 0x0C, CHR 0x0D, CHR 0x1C,
     CHR 0x1D, CHR 0x1E, CHR 0x1F, CHR 0x20, CHR 0x85, CHR 0xA0])"

definition strip :: "string \<Rightarrow> string" where
  "strip s = rev (dropWhile is_space (rev (dropWhile is_space s)))"

definition quoted :: "string \<Rightarrow> string" where
  "quoted s = [CHR 0x27] @ s @ [CHR 0x27]"

definition not_found_message :: "string \<Rightarrow> string" where
  "not_found_message path = ''Error: The file '' @ quoted path @ '' was not found.''"

definition read_error_message :: "string \<Rightarrow> string \<Rightarrow> string" where
  "read_error_message path e = ''Error reading '' @ quoted path @ '': '' @ e"

text \<open>
  \<^verbatim>\<open>read_ids(ids_file_path)\<close>, on what reading the file gives: the lines printed and the
  list returned, \<^verbatim>\<open>[line.strip() for line in f if line.strip()]\<close>.
\<close>

definition read_ids :: "string \<Rightarrow> file_read \<Rightarrow> string list \<times> string list outcome" where
  "read_ids ids_file_path src =
     (case src of
        FileText text \<Rightarrow>
          ([], Returned (map strip (filter (\<lambda>line. strip line \<noteq> []) (file_lines text))))
      | FileNotFound \<Rightarrow> ([not_found_message ids_file_path], Exited 1)
      | ReadError e \<Rightarrow> ([read_error_message ids_file_path e], Exited 1))"

text \<open>
  What \<^verbatim>\<open>open\<close> and \<^verbatim>\<open>json.load\<close> give: the file is missing, the text is not JSON
  (\<^verbatim>\<open>json.JSONDecodeError\<close> with its text), another exception, or the parsed value.
\<close>

datatype json_read = JsonNotFound | JsonDecodeError string | JsonReadError string | JsonLoaded json

definition shape_message :: string where
  "shape_message = ''Error: Expected the JSON file to contain a list of objects.''"

definition decode_error_message :: "string \<Rightarrow> string \<Rightarrow> string" where
  "decode_error_message path e =
     ''Error: Failed to parse JSON file '' @ quoted path @ '': '' @ e"

text \<open>
  \<^verbatim>\<open>read_json(json_file_path)\<close>, the same function in both tools. The test is
  \<^verbatim>\<open>isinstance(data, list)\<close>, on the top-level value only. \<^verbatim>\<open>sys.exit\<close> raises
  \<^verbatim>\<open>SystemExit\<close>, which is not an \<^verbatim>\<open>Exception\<close>, so the handlers below the test let
  it pass.
\<close>

definition read_json :: "string \<Rightarrow> json_read \<Rightarrow> string list \<times> json list outcome" where
  "read_json json_file_path src =
     (case src of
        JsonLoaded data \<Rightarrow>
          (case data of
             JArr entries \<Rightarrow> ([], Returned entries)
           | _ \<Rightarrow> ([shape_message], Exited 1))
      | JsonNotFound \<Rightarrow> ([not_found_message json_file_path], Exited 1)
      | JsonDecodeError e \<Rightarrow> ([decode_error_message json_file_path e], Exited 1)
      | JsonReadError e \<Rightarrow> ([read_error_message json_file_path e], Exited 1))"

text \<open>
  \<^verbatim>\<open>write_json(data, output_file_path)\<close>, on what writing gives (it succeeds, or an
  exception with its text): the lines printed, the way the call ended, and the document
  written, if any.
\<close>

datatype file_write = WriteOk | WriteError string

definition write_json ::
  "json list \<Rightarrow> string \<Rightarrow> file_write \<Rightarrow> string list \<times> unit outcome \<times> json list option" where
  "write_json data output_file_path w =
     (case w of
        WriteOk \<Rightarrow>
          ([''Successfully wrote updated JSON to '' @ quoted output_file_path @ ''.''],
           Returned (), Some data)
      | WriteError e \<Rightarrow>
          ([''Error writing to '' @ quoted output_file_path @ '': '' @ e], Exited 1, None))"

subsection \<open>main\<close>

text \<open>
  A run of a tool: the lines printed, how the process ended, and the document written to
  the output file, if any. \<open>main_replace_ids\<close> is \<^verbatim>\<open>main()\<close> of replace_ids.py, on
  the three paths of the command line and on what the file system gives.
\<close>

definition main_replace_ids ::
  "string \<Rightarrow> string \<Rightarrow> string \<Rightarrow> file_read \<Rightarrow> json_read \<Rightarrow> file_write \<Rightarrow>
   string list \<times> unit outcome \<times> json list option" where
  "main_replace_ids json_file ids_file output ids_src json_src w =
     (case read_ids ids_file ids_src of
        (out1, Returned new_ids) \<Rightarrow>
          (let out2 = out1 @ [''Number of new IDs read: '' @ str_nat (length new_ids)] in
           case read_json json_file json_src of
             (out3, Returned json_data) \<Rightarrow>
               (let out4 = out2 @ out3 @
                      [''Number of JSON entries read: '' @ str_nat (length json_data)] in
                case replace_ids_in_json json_data new_ids of
                  (updated_json, out5, Returned u) \<Rightarrow>
                    (case write_json updated_json output w of
                       (out6, res, doc) \<Rightarrow> (out4 @ out5 @ out6, res, doc))
                | (updated_json, out5, Exited n) \<Rightarrow> (out4 @ out5, Exited n, None)
                | (updated_json, out5, Raised e) \<Rightarrow> (out4 @ out5, Raised e, None))
           | (out3, Exited n) \<Rightarrow> (out2 @ out3, Exited n, None)
           | (out3, Raised e) \<Rightarrow> (out2 @ out3, Raised e, None))
      | (out1, Exited n) \<Rightarrow> (out1, Exited n, None)
      | (out1, Raised e) \<Rightarrow> (out1, Raised e, None))"

section \<open>The URL tool (update_image_urls.py)\<close>

subsection \<open>update_image_url\<close>

text \<open>
  \<^verbatim>\<open>s.replace(old, new)\<close>: every occurrence of \<^verbatim>\<open>old\<close>, found from left to right
  without overlap, becomes \<^verbatim>\<open>new\<close>. With an empty \<^verbatim>\<open>old\<close>, \<^verbatim>\<open>new\<close> goes before
  every character and at the end.
\<close>

fun str_replace :: "string \<Rightarrow> string \<Rightarrow> string \<Rightarrow> string" where
  "str_replace old new [] = (if old = [] then new else [])"
| "str_replace old new (c # cs) =
     (if old = [] then new @ c # str_replace old new cs
      else if prefix old (c # cs) then new @ str_replace old new (drop (length old) (c # cs))
      else c # str_replace old new cs)"

text \<open>
  The pattern \<^verbatim>\<open>(Atlas)(\d+)(\.png)$\<close> tried at the start of \<open>s\<close>: the digits of group 2
  and the text after the match. \<^verbatim>\<open>\d\<close> matches a decimal digit; below code point 256
  these are \<^verbatim>\<open>0\<close> to \<^verbatim>\<open>9\<close>. \<^verbatim>\<open>\d+\<close> is greedy, and giving a digit back cannot
  help, since \<^verbatim>\<open>\.\<close> would then meet a digit: group 2 is the whole run of digits.
  Without the MULTILINE flag \<^verbatim>\<open>$\<close> matches at the end of the string and also just
  before a line feed that is the last character.
\<close>

definition is_digit :: "char \<Rightarrow> bool" where
  "is_digit c = (c \<in> set ''0123456789'')"

definition match_atlas :: "string \<Rightarrow> (string \<times> string) option" where
  "match_atlas s =
     (if prefix ''Atlas'' s then
        (let t = drop 5 s; ds = takeWhile is_digit t; u = dropWhile is_digit t in
         if ds \<noteq> [] \<and> prefix ''.png'' u \<and> (drop 4 u = [] \<or> drop 4 u = [LF])
         then Some (ds, drop 4 u) else None)
      else None)"

lemma match_atlas_shorter: "match_atlas s = Some (ds, rest) \<Longrightarrow> length rest < length s"
proof -
  assume m: "match_atlas s = Some (ds, rest)"
  then have p: "prefix ''Atlas'' s" and r: "rest = drop 4 (dropWhile is_digit (drop 5 s))"
    by (auto simp: match_atlas_def Let_def split: if_splits)
  from p have "5 \<le> length s"
    using prefix_length_le by fastforce
  moreover have "length rest \<le> length (drop 5 s)"
    unfolding r using length_dropWhile_le [of is_digit "drop 5 s"] by simp
  ultimately show ?thesis by simp
qed

text \<open>
  \<^verbatim>\<open>re.subn(pattern, r'\1-\2\3', s)\<close>: the pattern is searched from left to right; a
  match is replaced by its three groups with a hyphen after the first, and the search goes
  on after the match; a character where no match starts is copied. The result is the new
  string and the number of matches replaced.
\<close>

function subn_atlas :: "string \<Rightarrow> string \<times> nat" where
  "subn_atlas [] = ([], 0)"
| "subn_atlas (c # cs) =
     (case match_atlas (c # cs) of
        Some (ds, rest) \<Rightarrow>
          (case subn_atlas rest of (r, n) \<Rightarrow> (''Atlas-'' @ ds @ ''.png'' @ r, Suc n))
      | None \<Rightarrow> (case subn_atlas cs of (r, n) \<Rightarrow> (c # r, n)))"
  by pat_completeness auto
termination
  by (relation "measure length") (auto dest: match_atlas_shorter)

definition pattern_warning :: "string \<Rightarrow> string" where
  "pattern_warning url =
     ''Warning: URL '' @ quoted url @
     '' does not match the expected pattern for filename modification.''"

text \<open>\<^verbatim>\<open>update_image_url(url)\<close> on a string: the string returned and the lines printed.\<close>

definition update_image_url :: "string \<Rightarrow> string \<times> string list" where
  "update_image_url url =
     (let updated_url = str_replace ''atlas-offchain-images'' ''atlas-images-offchain'' url in
      case subn_atlas updated_url of
        (updated_url', count) \<Rightarrow>
          (updated_url', if count = 0 then [pattern_warning url] else []))"

subsection \<open>replace_image_urls\<close>

definition no_image_warning :: "nat \<Rightarrow> string" where
  "no_image_warning index =
     ''Warning: Entry #'' @ str_nat index @ '' does not have an 'image' field.''"

text \<open>
  The body of the \<^verbatim>\<open>for\<close> loop of \<^verbatim>\<open>replace_image_urls\<close> on one entry: the entry
  after the body, the lines printed, and whether \<^verbatim>\<open>updated_count\<close> went up.
  \<^verbatim>\<open>entry.get\<close> and \<^verbatim>\<open>meta.get\<close> exist on dictionaries only, and
  \<^verbatim>\<open>url.replace\<close> on strings only: elsewhere the attribute lookup raises
  \<^verbatim>\<open>AttributeError\<close>. When the image is true, the key \<^verbatim>\<open>meta\<close> is in the entry and
  \<^verbatim>\<open>json_data[index - 1]['meta']\<close> is the dictionary \<^verbatim>\<open>meta\<close> read before.
\<close>

definition image_url_body :: "nat \<Rightarrow> json \<Rightarrow> pyexc + json \<times> string list \<times> bool" where
  "image_url_body index entry =
     (case entry of
        JObj d \<Rightarrow>
          (case dict_get d ''meta'' (JObj []) of
             JObj meta \<Rightarrow>
               (let image_url = dict_get meta ''image'' (JStr []) in
                if truthy image_url then
                  (case image_url of
                     JStr url \<Rightarrow>
                       (case update_image_url url of
                          (new_image_url, ls) \<Rightarrow>
                            if new_image_url \<noteq> url
                            then Inr (JObj (dict_set d ''meta''
                                        (JObj (dict_set meta ''image'' (JStr new_image_url)))),
                                      ls, True)
                            else Inr (entry, ls, False))
                   | _ \<Rightarrow> Inl AttributeError)
                else Inr (entry, [no_image_warning index], False))
           | _ \<Rightarrow> Inl AttributeError)
      | _ \<Rightarrow> Inl AttributeError)"

fun replace_image_urls_loop ::
  "nat \<Rightarrow> nat \<Rightarrow> json list \<Rightarrow> json list \<times> string list \<times> nat outcome" where
  "replace_image_urls_loop index updated_count [] = ([], [], Returned updated_count)"
| "replace_image_urls_loop index updated_count (entry # rest) =
     (case image_url_body index entry of
        Inl e \<Rightarrow> (entry # rest, [], Raised e)
      | Inr (entry', ls, changed) \<Rightarrow>
          step_entry entry' ls
            (replace_image_urls_loop (Suc index)
               (if changed then Suc updated_count else updated_count) rest))"

text \<open>
  \<^verbatim>\<open>replace_image_urls(json_data)\<close>: the entries of \<^verbatim>\<open>json_data\<close> after the call,
  the lines printed, and the way the call ended; it returns \<^verbatim>\<open>json_data\<close> itself with
  \<^verbatim>\<open>updated_count\<close>.
\<close>

definition replace_image_urls :: "json list \<Rightarrow> json list \<times> string list \<times> nat outcome" where
  "replace_image_urls json_data = replace_image_urls_loop 1 0 json_data"

text \<open>\<^verbatim>\<open>main()\<close> of update_image_urls.py.\<close>

definition main_update_image_urls ::
  "string \<Rightarrow> string \<Rightarrow> json_read \<Rightarrow> file_write \<Rightarrow>
   string list \<times> unit outcome \<times> json list option" where
  "main_update_image_urls json_file output json_src w =
     (case read_json json_file json_src of
        (out1, Returned json_data) \<Rightarrow>
          (let out2 = out1 @ [''Number of JSON entries read: '' @ str_nat (length json_data)] in
           case replace_image_urls json_data of
             (updated_json, out3, Returned updated_count) \<Rightarrow>
               (let out4 = out2 @ out3 @
                      [''Number of image URLs updated: '' @ str_nat updated_count] in
                case write_json updated_json output w of
                  (out5, res, doc) \<Rightarrow> (out4 @ out5, res, doc))
           | (updated_json, out3, Exited n) \<Rightarrow> (out2 @ out3, Exited n, None)
           | (updated_json, out3, Raised e) \<Rightarrow> (out2 @ out3, Raised e, None))
      | (out1, Exited n) \<Rightarrow> (out1, Exited n, None)
      | (out1, Raised e) \<Rightarrow> (out1, Raised e, None))"

section \<open>Notions for the statements\<close>

text \<open>
  Reading a record: the value of a key of an object (nothing for a missing key and for a
  value that is not an object), and its keys in order.
\<close>

definition field :: "json \<Rightarrow> string \<Rightarrow> json option" where
  "field e key = (case e of JObj d \<Rightarrow> map_of d key | _ \<Rightarrow> None)"

definition keys_of :: "json \<Rightarrow> string list" where
  "keys_of e = (case e of JObj d \<Rightarrow> map fst d | _ \<Rightarrow> [])"

definition is_object :: "json \<Rightarrow> bool" where
  "is_object e = (case e of JObj d \<Rightarrow> True | _ \<Rightarrow> False)"

text \<open>
  Reading the nested image: a key of the object under \<open>meta\<close>, and the keys of that object.
  A record fits the URL tool when it is an object, its \<open>meta\<close>, if it has one, is an object,
  and the \<open>image\<close> of that \<open>meta\<close>, if it has one, is a string or a value that Python
  takes as false (null, \<^verbatim>\<open>false\<close>, zero, an empty list or object).
\<close>

definition meta_field :: "json \<Rightarrow> string \<Rightarrow> json option" where
  "meta_field e key = (case field e ''meta'' of Some m \<Rightarrow> field m key | None \<Rightarrow> None)"

definition meta_keys :: "json \<Rightarrow> string list" where
  "meta_keys e = (case field e ''meta'' of Some m \<Rightarrow> keys_of m | None \<Rightarrow> [])"

definition url_record_ok :: "json \<Rightarrow> bool" where
  "url_record_ok e =
     (is_object e \<and>
      (case field e ''meta'' of
         None \<Rightarrow> True
       | Some m \<Rightarrow>
           is_object m \<and>
           (case field m ''image'' of
              None \<Rightarrow> True
            | Some (JStr url) \<Rightarrow> True
            | Some v \<Rightarrow> \<not> truthy v)))"

text \<open>The two folder names of \<^verbatim>\<open>update_image_url\<close>.\<close>

abbreviation old_folder :: string where "old_folder \<equiv> ''atlas-offchain-images''"
abbreviation new_folder :: string where "new_folder \<equiv> ''atlas-images-offchain''"

text \<open>A parsed document whose top-level value is an array.\<close>

definition is_array :: "json \<Rightarrow> bool" where
  "is_array v = (case v of JArr entries \<Rightarrow> True | _ \<Rightarrow> False)"

text \<open>
  The three parts of what a loop or a transformer gives: the entries after it, the lines
  printed, and the way it ended.
\<close>

definition entries_after :: "json list \<times> string list \<times> 'a outcome \<Rightarrow> json list" where
  "entries_after r = fst r"

definition printed :: "json list \<times> string list \<times> 'a outcome \<Rightarrow> string list" where
  "printed r = fst (snd r)"

definition ended :: "json list \<times> string list \<times> 'a outcome \<Rightarrow> 'a outcome" where
  "ended r = snd (snd r)"

section \<open>Properties of the ID tool\<close>

lemma step_entry_parts:
  "entries_after (step_entry e ls r) = e # entries_after r"
  "printed (step_entry e ls r) = ls @ printed r"
  "ended (step_entry e ls r) = ended r"
  by (simp_all add: step_entry_def entries_after_def printed_def ended_def split: prod.splits)

lemma replace_id_body_object:
  "is_object e \<Longrightarrow> \<exists>e' ls. replace_id_body k e new_id = Inr (e', ls)"
  by (auto simp: is_object_def replace_id_body_def split: json.splits)

lemma field_dict_set:
  "field (JObj (dict_set d k v)) key = (if key = k then Some v else field (JObj d) key)"
  by (simp add: field_def dict_set_def update_conv')

lemma keys_dict_set:
  "map_of d k \<noteq> None \<Longrightarrow> keys_of (JObj (dict_set d k v)) = keys_of (JObj d)"
  by (auto simp: keys_of_def dict_set_def update_keys map_of_eq_None_iff)

lemma replace_id_body_absent:
  "is_object e \<Longrightarrow> field e ''id'' = None \<or> field e ''id'' = Some JNull \<Longrightarrow>
   replace_id_body k e new_id = Inr (e, [no_id_warning k])"
  by (auto simp: is_object_def replace_id_body_def field_def dict_get_def split: json.splits)

lemma replace_id_body_present:
  "is_object e \<Longrightarrow> field e ''id'' \<noteq> None \<Longrightarrow> field e ''id'' \<noteq> Some JNull \<Longrightarrow>
   \<exists>d. e = JObj d \<and> replace_id_body k e new_id = Inr (JObj (dict_set d ''id'' (JStr new_id)), [])"
  by (auto simp: is_object_def replace_id_body_def field_def dict_get_def split: json.splits)

lemma replace_ids_loop_ended:
  "list_all is_object data \<Longrightarrow> length data = length ids \<Longrightarrow>
   ended (replace_ids_loop k data ids) = Returned () \<and>
   length (entries_after (replace_ids_loop k data ids)) = length data"
proof (induction k data ids rule: replace_ids_loop.induct)
  case (1 index new_ids)
  then show ?case by (simp add: ended_def entries_after_def)
next
  case (2 index entry rest)
  then show ?case by simp
next
  case (3 index entry rest new_id ids)
  from 3(2) obtain e' ls where b: "replace_id_body index entry new_id = Inr (e', ls)"
    using replace_id_body_object by fastforce
  with 3 show ?case by (simp add: step_entry_parts)
qed

lemma replace_ids_loop_nth:
  "list_all is_object data \<Longrightarrow> length data = length ids \<Longrightarrow> i < length data \<Longrightarrow>
   \<exists>ls. replace_id_body (k + i) (data ! i) (ids ! i) =
         Inr (entries_after (replace_ids_loop k data ids) ! i, ls) \<and>
        set ls \<subseteq> set (printed (replace_ids_loop k data ids))"
proof (induction k data ids arbitrary: i rule: replace_ids_loop.induct)
  case (1 index new_ids)
  then show ?case by simp
next
  case (2 index entry rest)
  then show ?case by simp
next
  case (3 index entry rest new_id ids)
  from 3(2) obtain e' ls where b: "replace_id_body index entry new_id = Inr (e', ls)"
    using replace_id_body_object by fastforce
  show ?case
  proof (cases i)
    case 0
    with b show ?thesis by (simp add: step_entry_parts)
  next
    case (Suc j)
    with 3 b have "\<exists>ls. replace_id_body (Suc index + j) (rest ! j) (ids ! j) =
         Inr (entries_after (replace_ids_loop (Suc index) rest ids) ! j, ls) \<and>
        set ls \<subseteq> set (printed (replace_ids_loop (Suc index) rest ids))"
      by simp
    with Suc b show ?thesis by (auto simp: step_entry_parts)
  qed
qed


lemma replace_ids_loop_at:
  assumes "list_all is_object data" and "length data = length ids" and "i < length data"
  shows "field (data ! i) ''id'' = None \<or> field (data ! i) ''id'' = Some JNull \<Longrightarrow>
           entries_after (replace_ids_loop k data ids) ! i = data ! i \<and>
           no_id_warning (k + i) \<in> set (printed (replace_ids_loop k data ids))"
    and "field (data ! i) ''id'' \<noteq> None \<Longrightarrow> field (data ! i) ''id'' \<noteq> Some JNull \<Longrightarrow>
           \<exists>d. data ! i = JObj d \<and>
             entries_after (replace_ids_loop k data ids) ! i =
               JObj (dict_set d ''id'' (JStr (ids ! i)))"
proof -
  from assms have o: "is_object (data ! i)"
    by (simp add: list_all_length)
  from replace_ids_loop_nth [OF assms, of k] obtain ls where
    b: "replace_id_body (k + i) (data ! i) (ids ! i) =
          Inr (entries_after (replace_ids_loop k data ids) ! i, ls)"
    and s: "set ls \<subseteq> set (printed (replace_ids_loop k data ids))"
    by blast
  show "field (data ! i) ''id'' = None \<or> field (data ! i) ''id'' = Some JNull \<Longrightarrow>
           entries_after (replace_ids_loop k data ids) ! i = data ! i \<and>
           no_id_warning (k + i) \<in> set (printed (replace_ids_loop k data ids))"
    using replace_id_body_absent [OF o, of "k + i" "ids ! i"] b s by auto
  show "field (data ! i) ''id'' \<noteq> None \<Longrightarrow> field (data ! i) ''id'' \<noteq> Some JNull \<Longrightarrow>
           \<exists>d. data ! i = JObj d \<and>
             entries_after (replace_ids_loop k data ids) ! i =
               JObj (dict_set d ''id'' (JStr (ids ! i)))"
    using replace_id_body_present [OF o, of "k + i" "ids ! i"] b by auto
qed

lemma replace_ids_in_json_loop:
  "length json_data = length new_ids \<Longrightarrow>
   replace_ids_in_json json_data new_ids = replace_ids_loop 1 json_data new_ids"
  by (simp add: replace_ids_in_json_def)

lemma str_nat_small: "n < 10 \<Longrightarrow> str_nat n = [digit_char n]"
  by (simp add: str_nat.simps)

text \<open>
  C2: when the record list and the ID list differ in length, the ID replacement changes no
  record, prints one error line that carries both lengths (the number of IDs first, then
  the number of records) and exits with status 1; the run of the tool ends there, with
  that line as its last output and no document written.
\<close>

theorem replace_ids_length_mismatch:
  assumes "length json_data \<noteq> length new_ids"
  shows "replace_ids_in_json json_data new_ids =
           (json_data,
            [''Error: Number of IDs ('' @ str_nat (length new_ids) @
             '') does not match number of JSON entries ('' @ str_nat (length json_data) @ '').''],
            Exited 1) \<and>
         (\<forall>ids_src out1. read_ids ids_file ids_src = (out1, Returned new_ids) \<longrightarrow>
            main_replace_ids json_file ids_file output ids_src (JsonLoaded (JArr json_data)) w =
              (out1 @
               [''Number of new IDs read: '' @ str_nat (length new_ids),
                ''Number of JSON entries read: '' @ str_nat (length json_data),
                ''Error: Number of IDs ('' @ str_nat (length new_ids) @
                '') does not match number of JSON entries ('' @ str_nat (length json_data) @ '').''],
               Exited 1, None))"
proof -
  have r: "replace_ids_in_json json_data new_ids =
           (json_data, [mismatch_message (length new_ids) (length json_data)], Exited 1)"
    using assms by (simp add: replace_ids_in_json_def)
  have "\<forall>ids_src out1. read_ids ids_file ids_src = (out1, Returned new_ids) \<longrightarrow>
            main_replace_ids json_file ids_file output ids_src (JsonLoaded (JArr json_data)) w =
              (out1 @
               [''Number of new IDs read: '' @ str_nat (length new_ids),
                ''Number of JSON entries read: '' @ str_nat (length json_data),
                mismatch_message (length new_ids) (length json_data)],
               Exited 1, None)"
    by (simp add: main_replace_ids_def read_json_def r)
  with r show ?thesis
    by (simp add: mismatch_message_def)
qed

theorem replace_ids_length_mismatch_witness:
  "length [JObj [(''id'', JInt 1)], JObj [(''id'', JInt 2)]] \<noteq> length [''a''] \<and>
   replace_ids_in_json [JObj [(''id'', JInt 1)], JObj [(''id'', JInt 2)]] [''a''] =
     ([JObj [(''id'', JInt 1)], JObj [(''id'', JInt 2)]],
      [''Error: Number of IDs (1) does not match number of JSON entries (2).''],
      Exited 1) \<and>
   main_replace_ids ''data.json'' ''ids.txt'' ''out.json'' (FileText ''a'')
       (JsonLoaded (JArr [JObj [(''id'', JInt 1)], JObj [(''id'', JInt 2)]])) WriteOk =
     ([''Number of new IDs read: 1'', ''Number of JSON entries read: 2'',
       ''Error: Number of IDs (1) does not match number of JSON entries (2).''],
      Exited 1, None)"
proof -
  have i: "read_ids ''ids.txt'' (FileText ''a'') = ([], Returned [''a''])"
    by (simp add: read_ids_def file_lines_def strip_def is_space_def)
  from replace_ids_length_mismatch
    [of "[JObj [(''id'', JInt 1)], JObj [(''id'', JInt 2)]]" "[''a'']"
        "''ids.txt''" "''data.json''" "''out.json''" WriteOk] i
  show ?thesis
    by (simp add: str_nat_small digit_char_def numeral_2_eq_2)
qed

lemma replace_ids_loop_siblings:
  assumes "list_all is_object data" and "length data = length ids" and "j < length data"
    and "field (data ! j) ''id'' \<noteq> None \<and> field (data ! j) ''id'' \<noteq> Some JNull"
  shows "field (entries_after (replace_ids_loop k data ids) ! j) ''id'' = Some (JStr (ids ! j))"
proof -
  from assms obtain d where
    "entries_after (replace_ids_loop k data ids) ! j = JObj (dict_set d ''id'' (JStr (ids ! j)))"
    using replace_ids_loop_at(2) [OF assms(1,2,3), of k] by blast
  then show ?thesis
    by (simp add: field_dict_set)
qed

text \<open>
  C1 (as amended): for a list of objects and an ID list of the same length, the ID
  replacement returns, and the list has the same length, with record \<open>i\<close> of the result
  coming from record \<open>i\<close> of the input: every field other than \<open>id\<close> has its input value,
  the keys are in their input order, and the \<open>id\<close> is the string at position \<open>i\<close> of the
  ID list when the record had an \<open>id\<close> other than null; a record with no \<open>id\<close> or a null
  \<open>id\<close> is unchanged.
\<close>

theorem replace_ids_positional:
  assumes "list_all is_object json_data" and "length json_data = length new_ids"
  shows "ended (replace_ids_in_json json_data new_ids) = Returned () \<and>
         length (entries_after (replace_ids_in_json json_data new_ids)) = length json_data \<and>
         (\<forall>i<length json_data.
            (\<forall>key. key \<noteq> ''id'' \<longrightarrow>
               field (entries_after (replace_ids_in_json json_data new_ids) ! i) key =
               field (json_data ! i) key) \<and>
            keys_of (entries_after (replace_ids_in_json json_data new_ids) ! i) =
              keys_of (json_data ! i) \<and>
            (if field (json_data ! i) ''id'' = None \<or> field (json_data ! i) ''id'' = Some JNull
             then entries_after (replace_ids_in_json json_data new_ids) ! i = json_data ! i
             else field (entries_after (replace_ids_in_json json_data new_ids) ! i) ''id'' =
                    Some (JStr (new_ids ! i))))"
proof -
  let ?r = "replace_ids_loop 1 json_data new_ids"
  have r: "replace_ids_in_json json_data new_ids = ?r"
    using assms(2) by (rule replace_ids_in_json_loop)
  have "\<forall>i<length json_data.
            (\<forall>key. key \<noteq> ''id'' \<longrightarrow> field (entries_after ?r ! i) key = field (json_data ! i) key) \<and>
            keys_of (entries_after ?r ! i) = keys_of (json_data ! i) \<and>
            (if field (json_data ! i) ''id'' = None \<or> field (json_data ! i) ''id'' = Some JNull
             then entries_after ?r ! i = json_data ! i
             else field (entries_after ?r ! i) ''id'' = Some (JStr (new_ids ! i)))"
  proof (intro allI impI)
    fix i assume i: "i < length json_data"
    show "(\<forall>key. key \<noteq> ''id'' \<longrightarrow> field (entries_after ?r ! i) key = field (json_data ! i) key) \<and>
            keys_of (entries_after ?r ! i) = keys_of (json_data ! i) \<and>
            (if field (json_data ! i) ''id'' = None \<or> field (json_data ! i) ''id'' = Some JNull
             then entries_after ?r ! i = json_data ! i
             else field (entries_after ?r ! i) ''id'' = Some (JStr (new_ids ! i)))"
    proof (cases "field (json_data ! i) ''id'' = None \<or> field (json_data ! i) ''id'' = Some JNull")
      case True
      then show ?thesis
        using replace_ids_loop_at(1) [OF assms i, of 1] by simp
    next
      case False
      then obtain d where d: "json_data ! i = JObj d"
        and e: "entries_after ?r ! i = JObj (dict_set d ''id'' (JStr (new_ids ! i)))"
        using replace_ids_loop_at(2) [OF assms i, of 1] by auto
      from False d have "map_of d ''id'' \<noteq> None"
        by (simp add: field_def)
      with False d e show ?thesis
        by (auto simp: field_dict_set keys_dict_set)
    qed
  qed
  with replace_ids_loop_ended [OF assms, of 1] show ?thesis
    unfolding r by blast
qed

theorem replace_ids_positional_witness:
  "list_all is_object [JObj [(''id'', JInt 7), (''name'', JStr ''x'')], JObj [(''name'', JStr ''y'')]] \<and>
   length [JObj [(''id'', JInt 7), (''name'', JStr ''x'')], JObj [(''name'', JStr ''y'')]] =
     length [''a'', ''b''] \<and>
   entries_after (replace_ids_in_json
       [JObj [(''id'', JInt 7), (''name'', JStr ''x'')], JObj [(''name'', JStr ''y'')]]
       [''a'', ''b'']) =
     [JObj [(''id'', JStr ''a''), (''name'', JStr ''x'')], JObj [(''name'', JStr ''y'')]] \<and>
   ended (replace_ids_in_json
       [JObj [(''id'', JInt 7), (''name'', JStr ''x'')], JObj [(''name'', JStr ''y'')]]
       [''a'', ''b'']) = Returned ()"
  using replace_ids_positional
    [of "[JObj [(''id'', JInt 7), (''name'', JStr ''x'')], JObj [(''name'', JStr ''y'')]]"
        "[''a'', ''b'']"]
  by (simp add: is_object_def replace_ids_in_json_def replace_id_body_def dict_get_def
        dict_set_def step_entry_def entries_after_def ended_def)

text \<open>
  The claim as stated fails on a record with no \<open>id\<close>: with one such record and one ID,
  the record has no \<open>id\<close> afterwards, so its \<open>id\<close> is not the ID of its position.
\<close>

theorem replace_ids_all_ids_counterexample:
  "list_all is_object [JObj [(''name'', JStr ''y'')]] \<and>
   length [JObj [(''name'', JStr ''y'')]] = length [''a''] \<and>
   field (entries_after (replace_ids_in_json [JObj [(''name'', JStr ''y'')]] [''a'']) ! 0) ''id''
     \<noteq> Some (JStr ''a'')"
  by (simp add: is_object_def replace_ids_in_json_def replace_id_body_def dict_get_def
        step_entry_def entries_after_def field_def)

text \<open>
  C7: with a list of objects and an ID list of the same length, a record that has no
  \<open>id\<close> is unchanged by the ID replacement and has no \<open>id\<close> afterwards, the warning
  with its 1-based index is printed, the call returns, and every record with an \<open>id\<close>
  other than null, before it or after it, has the ID of its position.
\<close>

theorem replace_ids_missing_id:
  assumes "list_all is_object json_data" and "length json_data = length new_ids"
    and "i < length json_data" and "field (json_data ! i) ''id'' = None"
  shows "ended (replace_ids_in_json json_data new_ids) = Returned () \<and>
         entries_after (replace_ids_in_json json_data new_ids) ! i = json_data ! i \<and>
         field (entries_after (replace_ids_in_json json_data new_ids) ! i) ''id'' = None \<and>
         no_id_warning (Suc i) \<in> set (printed (replace_ids_in_json json_data new_ids)) \<and>
         (\<forall>j<length json_data.
            field (json_data ! j) ''id'' \<noteq> None \<and> field (json_data ! j) ''id'' \<noteq> Some JNull \<longrightarrow>
            field (entries_after (replace_ids_in_json json_data new_ids) ! j) ''id'' =
              Some (JStr (new_ids ! j)))"
proof -
  let ?r = "replace_ids_loop 1 json_data new_ids"
  have r: "replace_ids_in_json json_data new_ids = ?r"
    using assms(2) by (rule replace_ids_in_json_loop)
  have e: "ended ?r = Returned ()"
    using replace_ids_loop_ended [OF assms(1,2), of 1] by blast
  have a: "entries_after ?r ! i = json_data ! i \<and> no_id_warning (1 + i) \<in> set (printed ?r)"
    using replace_ids_loop_at(1) [OF assms(1,2,3), of 1] assms(4) by blast
  have s: "\<forall>j<length json_data.
            field (json_data ! j) ''id'' \<noteq> None \<and> field (json_data ! j) ''id'' \<noteq> Some JNull \<longrightarrow>
            field (entries_after ?r ! j) ''id'' = Some (JStr (new_ids ! j))"
    using replace_ids_loop_siblings [OF assms(1,2), of _ 1] by blast
  from a have "field (entries_after ?r ! i) ''id'' = None"
    using assms(4) by simp
  with e a s show ?thesis
    unfolding r by simp
qed

theorem replace_ids_missing_id_witness:
  "list_all is_object [JObj [(''id'', JInt 7)], JObj [(''name'', JStr ''y'')], JObj [(''id'', JInt 9)]] \<and>
   length [JObj [(''id'', JInt 7)], JObj [(''name'', JStr ''y'')], JObj [(''id'', JInt 9)]] =
     length [''a'', ''b'', ''c''] \<and>
   (1::nat) < length [JObj [(''id'', JInt 7)], JObj [(''name'', JStr ''y'')], JObj [(''id'', JInt 9)]] \<and>
   field ([JObj [(''id'', JInt 7)], JObj [(''name'', JStr ''y'')], JObj [(''id'', JInt 9)]] ! 1) ''id'' = None \<and>
   replace_ids_in_json
     [JObj [(''id'', JInt 7)], JObj [(''name'', JStr ''y'')], JObj [(''id'', JInt 9)]]
     [''a'', ''b'', ''c''] =
   ([JObj [(''id'', JStr ''a'')], JObj [(''name'', JStr ''y'')], JObj [(''id'', JStr ''c'')]],
    [no_id_warning 2], Returned ())"
  using replace_ids_missing_id
    [of "[JObj [(''id'', JInt 7)], JObj [(''name'', JStr ''y'')], JObj [(''id'', JInt 9)]]"
        "[''a'', ''b'', ''c'']" 1]
  by (simp add: is_object_def replace_ids_in_json_def replace_id_body_def dict_get_def
        dict_set_def step_entry_def field_def numeral_2_eq_2)

text \<open>
  C9: a record whose \<open>id\<close> is null is treated as one with no \<open>id\<close>: it is unchanged,
  its \<open>id\<close> is still null and so is not the ID of its position, the same warning with its
  1-based index is printed, the call returns, and the records with an \<open>id\<close> other than
  null have the ID of their position.
\<close>

theorem replace_ids_null_id:
  assumes "list_all is_object json_data" and "length json_data = length new_ids"
    and "i < length json_data" and "field (json_data ! i) ''id'' = Some JNull"
  shows "ended (replace_ids_in_json json_data new_ids) = Returned () \<and>
         entries_after (replace_ids_in_json json_data new_ids) ! i = json_data ! i \<and>
         field (entries_after (replace_ids_in_json json_data new_ids) ! i) ''id'' = Some JNull \<and>
         field (entries_after (replace_ids_in_json json_data new_ids) ! i) ''id'' \<noteq>
           Some (JStr (new_ids ! i)) \<and>
         no_id_warning (Suc i) \<in> set (printed (replace_ids_in_json json_data new_ids)) \<and>
         (\<forall>j<length json_data.
            field (json_data ! j) ''id'' \<noteq> None \<and> field (json_data ! j) ''id'' \<noteq> Some JNull \<longrightarrow>
            field (entries_after (replace_ids_in_json json_data new_ids) ! j) ''id'' =
              Some (JStr (new_ids ! j)))"
proof -
  let ?r = "replace_ids_loop 1 json_data new_ids"
  have r: "replace_ids_in_json json_data new_ids = ?r"
    using assms(2) by (rule replace_ids_in_json_loop)
  have e: "ended ?r = Returned ()"
    using replace_ids_loop_ended [OF assms(1,2), of 1] by blast
  have a: "entries_after ?r ! i = json_data ! i \<and> no_id_warning (1 + i) \<in> set (printed ?r)"
    using replace_ids_loop_at(1) [OF assms(1,2,3), of 1] assms(4) by blast
  have s: "\<forall>j<length json_data.
            field (json_data ! j) ''id'' \<noteq> None \<and> field (json_data ! j) ''id'' \<noteq> Some JNull \<longrightarrow>
            field (entries_after ?r ! j) ''id'' = Some (JStr (new_ids ! j))"
    using replace_ids_loop_siblings [OF assms(1,2), of _ 1] by blast
  from a have "field (entries_after ?r ! i) ''id'' = Some JNull"
    using assms(4) by simp
  with e a s show ?thesis
    unfolding r by simp
qed

theorem replace_ids_null_id_witness:
  "list_all is_object [JObj [(''id'', JNull), (''name'', JStr ''x'')], JObj [(''id'', JInt 9)]] \<and>
   length [JObj [(''id'', JNull), (''name'', JStr ''x'')], JObj [(''id'', JInt 9)]] =
     length [''a'', ''b''] \<and>
   (0::nat) < length [JObj [(''id'', JNull), (''name'', JStr ''x'')], JObj [(''id'', JInt 9)]] \<and>
   field ([JObj [(''id'', JNull), (''name'', JStr ''x'')], JObj [(''id'', JInt 9)]] ! 0) ''id'' =
     Some JNull \<and>
   replace_ids_in_json
     [JObj [(''id'', JNull), (''name'', JStr ''x'')], JObj [(''id'', JInt 9)]] [''a'', ''b''] =
   ([JObj [(''id'', JNull), (''name'', JStr ''x'')], JObj [(''id'', JStr ''b'')]],
    [no_id_warning 1], Returned ())"
  using replace_ids_null_id
    [of "[JObj [(''id'', JNull), (''name'', JStr ''x'')], JObj [(''id'', JInt 9)]]"
        "[''a'', ''b'']" 0]
  by (simp add: is_object_def replace_ids_in_json_def replace_id_body_def dict_get_def
        dict_set_def step_entry_def field_def numeral_2_eq_2)

section \<open>Properties of the loaders\<close>

lemma ball_dropWhile: "(\<forall>x\<in>set (dropWhile P xs). P x) \<longleftrightarrow> (\<forall>x\<in>set xs. P x)"
  by (induction xs) auto

lemma strip_Nil_iff: "strip l = [] \<longleftrightarrow> list_all is_space l"
  by (simp add: strip_def ball_dropWhile list_all_iff)

lemma last_dropWhile_keep: "dropWhile P xs \<noteq> [] \<Longrightarrow> last (dropWhile P xs) = last xs"
  by (induction xs) (auto split: if_splits)

lemma strip_ends:
  assumes "strip l \<noteq> []"
  shows "\<not> is_space (hd (strip l)) \<and> \<not> is_space (last (strip l))"
proof -
  let ?x = "dropWhile is_space l"
  let ?y = "dropWhile is_space (rev ?x)"
  from assms have y: "?y \<noteq> []"
    by (simp add: strip_def)
  have x: "?x \<noteq> []"
  proof
    assume "?x = []"
    with y show False by simp
  qed
  have "last (strip l) = hd ?y"
    using y by (simp add: strip_def last_rev)
  moreover have "\<not> is_space (hd ?y)"
    using y hd_dropWhile by blast
  moreover have "hd (strip l) = last ?y"
    using y by (simp add: strip_def hd_rev)
  moreover have "last ?y = hd ?x"
    using y x by (simp add: last_dropWhile_keep last_rev)
  moreover have "\<not> is_space (hd ?x)"
    using x hd_dropWhile by blast
  ultimately show ?thesis by simp
qed

lemma strip_middle:
  "\<exists>a b. l = a @ strip l @ b \<and> list_all is_space a \<and> list_all is_space b"
proof -
  let ?x = "dropWhile is_space l"
  have 1: "l = takeWhile is_space l @ ?x"
    by simp
  have "rev (takeWhile is_space (rev ?x) @ dropWhile is_space (rev ?x)) = rev (rev ?x)"
    by (simp only: takeWhile_dropWhile_id)
  then have 2: "?x = strip l @ rev (takeWhile is_space (rev ?x))"
    unfolding strip_def by (metis rev_append rev_rev_ident)
  have 3: "list_all is_space (takeWhile is_space l)"
    by (auto simp: list_all_iff dest: set_takeWhileD)
  have 4: "list_all is_space (rev (takeWhile is_space (rev ?x)))"
    by (auto simp: list_all_iff dest: set_takeWhileD)
  from 1 2 have "l = takeWhile is_space l @ strip l @ rev (takeWhile is_space (rev ?x))"
    by metis
  with 3 4 show ?thesis by blast
qed

text \<open>
  C8: on the text of the ID file, \<^verbatim>\<open>read_ids\<close> prints nothing and returns the lines of
  the text in their order, each stripped, without the lines that are empty or hold
  whitespace only; every ID returned is non-empty and neither starts nor ends with
  whitespace. Stripping a line removes a run of whitespace at each end and nothing else.
\<close>

theorem read_ids_lines:
  "read_ids ids_file_path (FileText text) =
     ([], Returned (map strip (filter (\<lambda>line. \<not> list_all is_space line) (file_lines text)))) \<and>
   list_all (\<lambda>new_id. new_id \<noteq> [] \<and> \<not> is_space (hd new_id) \<and> \<not> is_space (last new_id))
     (map strip (filter (\<lambda>line. \<not> list_all is_space line) (file_lines text))) \<and>
   (\<forall>line. \<exists>a b. line = a @ strip line @ b \<and> list_all is_space a \<and> list_all is_space b)"
proof (intro conjI)
  show "read_ids ids_file_path (FileText text) =
     ([], Returned (map strip (filter (\<lambda>line. \<not> list_all is_space line) (file_lines text))))"
    by (simp add: read_ids_def strip_Nil_iff)
  show "list_all (\<lambda>new_id. new_id \<noteq> [] \<and> \<not> is_space (hd new_id) \<and> \<not> is_space (last new_id))
     (map strip (filter (\<lambda>line. \<not> list_all is_space line) (file_lines text)))"
    using strip_ends by (simp add: list_all_iff strip_Nil_iff)
  show "\<forall>line. \<exists>a b. line = a @ strip line @ b \<and> list_all is_space a \<and> list_all is_space b"
    using strip_middle by blast
qed

theorem read_ids_lines_witness:
  "read_ids ''ids.txt'' (FileText (''  id-1 '' @ [CR, LF] @ [LF] @ ''   '' @ [LF] @ ''id 2'')) =
     ([], Returned [''id-1'', ''id 2''])"
proof -
  have "file_lines (''  id-1 '' @ [CR, LF] @ [LF] @ ''   '' @ [LF] @ ''id 2'') =
          [''  id-1 '' @ [LF], [LF], ''   '' @ [LF], ''id 2'']"
    by (simp add: file_lines_def)
  then show ?thesis
    using read_ids_lines [of "''ids.txt''" "''  id-1 '' @ [CR, LF] @ [LF] @ ''   '' @ [LF] @ ''id 2''"]
    by (simp add: strip_def is_space_def)
qed


lemma read_json_not_array:
  "\<not> is_array v \<Longrightarrow> read_json json_file (JsonLoaded v) = ([shape_message], Exited 1)"
  by (cases v) (simp_all add: is_array_def read_json_def)

text \<open>
  C5 (as amended): \<^verbatim>\<open>read_json\<close> accepts a parsed document whose top-level value is an
  array, whatever its elements are. Every other top-level value (an object, a scalar, null)
  and every decoding error ends the run with the error line and exit status 1: the URL
  tool prints nothing else, the ID tool (which reads the ID file first) has printed the
  number of IDs only; no transformer has run and nothing is written.
\<close>

theorem read_json_shape:
  "(\<forall>v. \<not> is_array v \<longrightarrow>
      read_json json_file (JsonLoaded v) = ([shape_message], Exited 1) \<and>
      main_update_image_urls json_file output (JsonLoaded v) w =
        ([shape_message], Exited 1, None) \<and>
      main_replace_ids json_file ids_file output (FileText text) (JsonLoaded v) w =
        ([''Number of new IDs read: '' @
            str_nat (length (map strip (filter (\<lambda>line. strip line \<noteq> []) (file_lines text)))),
          shape_message], Exited 1, None)) \<and>
   (\<forall>e. read_json json_file (JsonDecodeError e) =
          ([decode_error_message json_file e], Exited 1) \<and>
        main_update_image_urls json_file output (JsonDecodeError e) w =
          ([decode_error_message json_file e], Exited 1, None) \<and>
        main_replace_ids json_file ids_file output (FileText text) (JsonDecodeError e) w =
          ([''Number of new IDs read: '' @
              str_nat (length (map strip (filter (\<lambda>line. strip line \<noteq> []) (file_lines text)))),
            decode_error_message json_file e], Exited 1, None)) \<and>
   (\<forall>entries. read_json json_file (JsonLoaded (JArr entries)) = ([], Returned entries))"
proof (intro conjI allI impI)
  fix v assume v: "\<not> is_array v"
  show "read_json json_file (JsonLoaded v) = ([shape_message], Exited 1)"
    using v by (rule read_json_not_array)
  show "main_update_image_urls json_file output (JsonLoaded v) w =
        ([shape_message], Exited 1, None)"
    by (simp add: main_update_image_urls_def read_json_not_array [OF v])
  show "main_replace_ids json_file ids_file output (FileText text) (JsonLoaded v) w =
        ([''Number of new IDs read: '' @
            str_nat (length (map strip (filter (\<lambda>line. strip line \<noteq> []) (file_lines text)))),
          shape_message], Exited 1, None)"
    by (simp add: main_replace_ids_def read_ids_def read_json_not_array [OF v])
next
  fix e
  show "read_json json_file (JsonDecodeError e) = ([decode_error_message json_file e], Exited 1)"
    by (simp add: read_json_def)
  show "main_update_image_urls json_file output (JsonDecodeError e) w =
          ([decode_error_message json_file e], Exited 1, None)"
    by (simp add: main_update_image_urls_def read_json_def)
  show "main_replace_ids json_file ids_file output (FileText text) (JsonDecodeError e) w =
          ([''Number of new IDs read: '' @
              str_nat (length (map strip (filter (\<lambda>line. strip line \<noteq> []) (file_lines text)))),
            decode_error_message json_file e], Exited 1, None)"
    by (simp add: main_replace_ids_def read_ids_def read_json_def)
next
  fix entries
  show "read_json json_file (JsonLoaded (JArr entries)) = ([], Returned entries)"
    by (simp add: read_json_def)
qed

theorem read_json_shape_witness:
  "\<not> is_array (JObj [(''not'', JStr ''a list'')]) \<and>
   read_json ''data.json'' (JsonLoaded (JObj [(''not'', JStr ''a list'')])) =
     ([''Error: Expected the JSON file to contain a list of objects.''], Exited 1) \<and>
   main_update_image_urls ''data.json'' ''out.json''
       (JsonLoaded (JObj [(''not'', JStr ''a list'')])) WriteOk =
     ([''Error: Expected the JSON file to contain a list of objects.''], Exited 1, None) \<and>
   main_replace_ids ''data.json'' ''ids.txt'' ''out.json'' (FileText [])
       (JsonLoaded (JObj [(''not'', JStr ''a list'')])) WriteOk =
     ([''Number of new IDs read: 0'',
       ''Error: Expected the JSON file to contain a list of objects.''], Exited 1, None)"
  using read_json_shape [of "''data.json''" "''out.json''" WriteOk "''ids.txt''" "[]"]
  by (simp add: is_array_def shape_message_def file_lines_def str_nat_small digit_char_def)

text \<open>
  The claim as stated fails on an array whose elements are not objects: the loader returns
  it as it is.
\<close>

theorem read_json_elements_counterexample:
  "\<not> list_all is_object [JInt 1, JStr ''x''] \<and>
   read_json ''data.json'' (JsonLoaded (JArr [JInt 1, JStr ''x''])) =
     ([], Returned [JInt 1, JStr ''x''])"
  by (simp add: is_object_def read_json_def)

section \<open>Properties of the URL rewrite\<close>

lemma not_digit_dot [simp]: "\<not> is_digit (CHR ''.'')"
  by (simp add: is_digit_def)

lemma not_digit_s [simp]: "\<not> is_digit (CHR ''s'')"
  by (simp add: is_digit_def)

lemma not_digit_hyphen [simp]: "\<not> is_digit (CHR ''-'')"
  by (simp add: is_digit_def)

lemma takeWhile_digits:
  "list_all is_digit ds \<Longrightarrow> \<not> is_digit c \<Longrightarrow> takeWhile is_digit (ds @ c # xs) = ds"
  by (simp add: list_all_iff)

lemma dropWhile_digits:
  "list_all is_digit ds \<Longrightarrow> \<not> is_digit c \<Longrightarrow> dropWhile is_digit (ds @ c # xs) = c # xs"
  by (simp add: list_all_iff)

lemma match_atlas_Some:
  assumes "match_atlas s = Some (ds, rest)"
  shows "s = ''Atlas'' @ ds @ ''.png'' @ rest \<and> ds \<noteq> [] \<and> list_all is_digit ds \<and>
         (rest = [] \<or> rest = [LF])"
proof -
  let ?t = "drop 5 s"
  let ?u = "dropWhile is_digit ?t"
  from assms have p: "prefix ''Atlas'' s" and d: "ds = takeWhile is_digit ?t"
    and n: "ds \<noteq> []" and q: "prefix ''.png'' ?u" and r: "rest = drop 4 ?u"
    and e: "rest = [] \<or> rest = [LF]"
    by (auto simp: match_atlas_def Let_def split: if_splits)
  from p have 1: "s = ''Atlas'' @ ?t"
    by (auto simp: prefix_def)
  have 2: "?t = ds @ ?u"
    unfolding d by simp
  from q r have 3: "?u = ''.png'' @ rest"
    by (auto simp: prefix_def)
  have 4: "list_all is_digit ds"
    unfolding d by (auto simp: list_all_iff dest: set_takeWhileD)
  from 1 2 3 have "s = ''Atlas'' @ ds @ ''.png'' @ rest"
    by metis
  with n 4 e show ?thesis by blast
qed

lemma match_atlas_at:
  assumes "ds \<noteq> []" and "list_all is_digit ds" and "e = [] \<or> e = [LF]"
  shows "match_atlas (''Atlas'' @ ds @ ''.png'' @ e) = Some (ds, e)"
  using assms by (auto simp: match_atlas_def Let_def takeWhile_digits dropWhile_digits)


lemma digit_run_unique:
  assumes eq: "x @ a # ds @ ''.png'' @ e = x' @ a' # ds' @ ''.png'' @ e'"
    and "list_all is_digit ds" and "list_all is_digit ds'"
    and "\<not> is_digit a" and "\<not> is_digit a'"
    and "e = [] \<or> e = [LF]" and "e' = [] \<or> e' = [LF]"
  shows "x = x' \<and> a = a' \<and> ds = ds' \<and> e = e'"
proof -
  from arg_cong [OF eq, of rev]
  have r: "rev e @ ''gnp.'' @ rev ds @ a # rev x = rev e' @ ''gnp.'' @ rev ds' @ a' # rev x'"
    by simp
  from r assms(6,7) have e: "e = e'"
    by auto
  with r have t: "rev ds @ a # rev x = rev ds' @ a' # rev x'"
    by simp
  have "takeWhile is_digit (rev ds @ a # rev x) = rev ds"
    using assms(2,4) by (simp add: takeWhile_digits)
  moreover have "takeWhile is_digit (rev ds' @ a' # rev x') = rev ds'"
    using assms(3,5) by (simp add: takeWhile_digits)
  ultimately have d: "rev ds = rev ds'"
    using t by simp
  with t have "a = a' \<and> rev x = rev x'"
    by simp
  with e d show ?thesis by simp
qed

lemma subn_atlas_end: "e = [] \<or> e = [LF] \<Longrightarrow> subn_atlas e = (e, 0)"
  by (auto simp: match_atlas_def)

lemma subn_atlas_hyphen:
  assumes "ds \<noteq> []" and "list_all is_digit ds" and "e = [] \<or> e = [LF]"
  shows "subn_atlas (p @ ''Atlas'' @ ds @ ''.png'' @ e) = (p @ ''Atlas-'' @ ds @ ''.png'' @ e, 1)"
proof (induction p)
  case Nil
  have "subn_atlas (CHR ''A'' # ''tlas'' @ ds @ ''.png'' @ e) =
          (''Atlas-'' @ ds @ ''.png'' @ e, 1)"
    using match_atlas_at [OF assms] subn_atlas_end [OF assms(3)]
    by (simp only: subn_atlas.simps) simp
  then show ?case by simp
next
  case (Cons c p)
  have "match_atlas (c # p @ ''Atlas'' @ ds @ ''.png'' @ e) = None"
  proof (cases "match_atlas (c # p @ ''Atlas'' @ ds @ ''.png'' @ e)")
    case None
    then show ?thesis .
  next
    case (Some m)
    obtain ds' e' where m: "m = (ds', e')"
      by (cases m)
    from match_atlas_Some [OF Some [unfolded m]]
    have eq: "((c # p) @ ''Atla'') @ CHR ''s'' # ds @ ''.png'' @ e =
                ''Atla'' @ CHR ''s'' # ds' @ ''.png'' @ e'"
      and d: "list_all is_digit ds'" and e: "e' = [] \<or> e' = [LF]"
      by simp_all
    from digit_run_unique [OF eq assms(2) d _ _ assms(3) e]
    have "(c # p) @ ''Atla'' = ''Atla''"
      by simp
    then show ?thesis by simp
  qed
  with Cons show ?case by simp
qed

lemma subn_atlas_cases:
  "(snd (subn_atlas s) = 0 \<and> fst (subn_atlas s) = s) \<or>
   (\<exists>p ds e. s = p @ ''Atlas'' @ ds @ ''.png'' @ e \<and> ds \<noteq> [] \<and> list_all is_digit ds \<and>
      (e = [] \<or> e = [LF]) \<and> subn_atlas s = (p @ ''Atlas-'' @ ds @ ''.png'' @ e, 1))"
proof (induction s)
  case Nil
  then show ?case by simp
next
  case (Cons c cs)
  show ?case
  proof (cases "match_atlas (c # cs)")
    case None
    from Cons show ?thesis
    proof
      assume "snd (subn_atlas cs) = 0 \<and> fst (subn_atlas cs) = cs"
      with None show ?thesis
        by (simp add: split_beta)
    next
      assume "\<exists>p ds e. cs = p @ ''Atlas'' @ ds @ ''.png'' @ e \<and> ds \<noteq> [] \<and>
        list_all is_digit ds \<and> (e = [] \<or> e = [LF]) \<and>
        subn_atlas cs = (p @ ''Atlas-'' @ ds @ ''.png'' @ e, 1)"
      then obtain p ds e where "cs = p @ ''Atlas'' @ ds @ ''.png'' @ e" and "ds \<noteq> []"
        and "list_all is_digit ds" and "e = [] \<or> e = [LF]"
        and "subn_atlas cs = (p @ ''Atlas-'' @ ds @ ''.png'' @ e, 1)"
        by blast
      with None have "c # cs = (c # p) @ ''Atlas'' @ ds @ ''.png'' @ e \<and> ds \<noteq> [] \<and>
        list_all is_digit ds \<and> (e = [] \<or> e = [LF]) \<and>
        subn_atlas (c # cs) = ((c # p) @ ''Atlas-'' @ ds @ ''.png'' @ e, 1)"
        by simp
      then show ?thesis by blast
    qed
  next
    case (Some m)
    obtain ds e where m: "m = (ds, e)"
      by (cases m)
    from match_atlas_Some [OF Some [unfolded m]]
    have s: "c # cs = [] @ ''Atlas'' @ ds @ ''.png'' @ e" and n: "ds \<noteq> []"
      and d: "list_all is_digit ds" and e: "e = [] \<or> e = [LF]"
      by simp_all
    from subn_atlas_hyphen [OF n d e, of "[]"] s
    have "subn_atlas (c # cs) = ([] @ ''Atlas-'' @ ds @ ''.png'' @ e, 1)"
      by simp
    with s n d e show ?thesis by blast
  qed
qed


lemma str_replace_absent:
  "old \<noteq> [] \<Longrightarrow> \<not> sublist old s \<Longrightarrow> str_replace old new s = s"
proof (induction s)
  case Nil
  then show ?case by simp
next
  case (Cons c cs)
  from Cons.prems(2) have "\<not> prefix old (c # cs)" and "\<not> sublist old cs"
    by (simp_all add: sublist_Cons_right)
  with Cons show ?case by simp
qed

lemma str_replace_prefix:
  assumes "old \<noteq> []"
  shows "prefix w (str_replace old new s) \<Longrightarrow>
         prefix w s \<or>
         (\<exists>w1 w2. w = w1 @ w2 \<and> w2 \<noteq> [] \<and> prefix w1 s \<and> (prefix w2 new \<or> prefix new w2))"
proof (induction s arbitrary: w)
  case Nil
  then show ?case using assms by simp
next
  case (Cons c cs)
  show ?case
  proof (cases "w = []")
    case True
    then show ?thesis by simp
  next
    case False
    show ?thesis
    proof (cases "prefix old (c # cs)")
      case True
      with Cons.prems assms
      have "prefix w (new @ str_replace old new (drop (length old) (c # cs)))"
        by simp
      then have "prefix w new \<or> prefix new w"
        by (auto simp: prefix_append)
      with False have "w = [] @ w \<and> w \<noteq> [] \<and> prefix [] (c # cs) \<and> (prefix w new \<or> prefix new w)"
        by simp
      then show ?thesis by blast
    next
      case np: False
      with Cons.prems assms have p: "prefix w (c # str_replace old new cs)"
        by simp
      with False obtain w' where w: "w = c # w'" and p': "prefix w' (str_replace old new cs)"
        by (cases w) auto
      from Cons.IH [OF p'] show ?thesis
      proof
        assume "prefix w' cs"
        with w show ?thesis by simp
      next
        assume "\<exists>w1 w2. w' = w1 @ w2 \<and> w2 \<noteq> [] \<and> prefix w1 cs \<and> (prefix w2 new \<or> prefix new w2)"
        then obtain w1 w2 where "w' = w1 @ w2" and "w2 \<noteq> []" and "prefix w1 cs"
          and "prefix w2 new \<or> prefix new w2"
          by blast
        with w have "w = (c # w1) @ w2 \<and> w2 \<noteq> [] \<and> prefix (c # w1) (c # cs) \<and>
          (prefix w2 new \<or> prefix new w2)"
          by simp
        then show ?thesis by blast
      qed
    qed
  qed
qed

lemma folder_check_1: "\<forall>xs\<in>set (prefixes old_folder). xs \<noteq> [] \<longrightarrow> \<not> suffix xs new_folder"
  by code_simp

lemma folder_check_2:
  "\<forall>xs\<in>set (suffixes old_folder). xs \<noteq> [] \<longrightarrow> \<not> prefix xs new_folder \<and> \<not> prefix new_folder xs"
  by code_simp

lemma folder_check_3:
  "\<forall>xs\<in>set (prefixes old_folder). prefix (xs @ ''-'') old_folder \<longrightarrow>
     5 \<le> length xs \<and> \<not> suffix ''Atlas'' xs"
  by code_simp

lemma folder_check_4: "\<not> sublist old_folder new_folder"
  by code_simp


lemma suffix_full: "suffix xs ys \<Longrightarrow> length ys \<le> length xs \<Longrightarrow> xs = ys"
  by (auto simp: suffix_def)

lemma str_replace_hit:
  "old \<noteq> [] \<Longrightarrow> s \<noteq> [] \<Longrightarrow> prefix old s \<Longrightarrow>
   str_replace old new s = new @ str_replace old new (drop (length old) s)"
  by (cases s) simp_all

lemma str_replace_miss:
  "old \<noteq> [] \<Longrightarrow> \<not> prefix old (c # cs) \<Longrightarrow>
   str_replace old new (c # cs) = c # str_replace old new cs"
  by simp

lemma str_replace_folder_gone: "\<not> sublist old_folder (str_replace old_folder new_folder s)"
proof (induction s rule: length_induct)
  case (1 s)
  show ?case
  proof (cases s)
    case Nil
    then show ?thesis by simp
  next
    case (Cons c cs)
    show ?thesis
    proof (cases "prefix old_folder s")
      case True
      let ?t = "str_replace old_folder new_folder (drop (length old_folder) s)"
      have ne: "s \<noteq> []"
        using Cons by simp
      have o: "old_folder \<noteq> []"
        by simp
      have r: "str_replace old_folder new_folder s = new_folder @ ?t"
        by (rule str_replace_hit [OF o ne True])
      have "length (drop (length old_folder) s) < length s"
        using Cons by simp
      with 1 have ih: "\<not> sublist old_folder ?t"
        by blast
      have "\<not> sublist old_folder (new_folder @ ?t)"
      proof
        assume "sublist old_folder (new_folder @ ?t)"
        then consider "sublist old_folder new_folder" | "sublist old_folder ?t"
          | xs1 xs2 where "old_folder = xs1 @ xs2" "suffix xs1 new_folder" "prefix xs2 ?t"
          unfolding sublist_append by blast
        then show False
        proof cases
          case 1
          then show False using folder_check_4 by simp
        next
          case 2
          then show False using ih by simp
        next
          case 3
          show False
          proof (cases "xs1 = []")
            case True
            with 3 have "prefix old_folder ?t" by simp
            then have "sublist old_folder ?t" by (rule prefix_imp_sublist)
            with ih show False by simp
          next
            case False
            from 3(1) have "prefix xs1 old_folder"
              by (metis prefixI)
            then have "xs1 \<in> set (prefixes old_folder)"
              by (simp only: in_set_prefixes)
            with False 3(2) folder_check_1 show False by blast
          qed
        qed
      qed
      with r show ?thesis by simp
    next
      case False
      have o: "old_folder \<noteq> []"
        by simp
      have r: "str_replace old_folder new_folder s = c # str_replace old_folder new_folder cs"
        unfolding Cons by (rule str_replace_miss [OF o False [unfolded Cons]])
      have ih: "\<not> sublist old_folder (str_replace old_folder new_folder cs)"
        using 1 Cons by simp
      have "\<not> prefix old_folder (str_replace old_folder new_folder s)"
      proof
        assume "prefix old_folder (str_replace old_folder new_folder s)"
        with False str_replace_prefix [of old_folder old_folder new_folder s]
        obtain w1 w2 where w: "old_folder = w1 @ w2" and n: "w2 \<noteq> []"
          and c: "prefix w2 new_folder \<or> prefix new_folder w2"
          by auto
        from w have "suffix w2 old_folder"
          by (metis suffixI)
        then have "w2 \<in> set (suffixes old_folder)"
          by (simp only: in_set_suffixes)
        with n c folder_check_2 show False by blast
      qed
      with ih r show ?thesis
        by (simp add: sublist_Cons_right)
    qed
  qed
qed

lemma hyphen_keeps_folder_gone:
  assumes "\<not> sublist old_folder (a @ b)" and "suffix ''Atlas'' a"
  shows "\<not> sublist old_folder (a @ CHR ''-'' # b)"
proof
  assume "sublist old_folder (a @ CHR ''-'' # b)"
  then consider "sublist old_folder a" | "sublist old_folder (CHR ''-'' # b)"
    | xs1 xs2 where "old_folder = xs1 @ xs2" "suffix xs1 a" "prefix xs2 (CHR ''-'' # b)"
    unfolding sublist_append by blast
  then show False
  proof cases
    case 1
    with assms(1) show False by (simp add: sublist_append)
  next
    case 2
    then have "sublist old_folder b"
      by (simp add: sublist_Cons_right)
    with assms(1) show False by (simp add: sublist_append)
  next
    case 3
    show False
    proof (cases xs2)
      case Nil
      with 3 have "suffix old_folder a" by simp
      then have "sublist old_folder a" by (rule suffix_imp_sublist)
      with assms(1) show False by (simp add: sublist_append)
    next
      case (Cons x xs)
      with 3(3) have x: "x = CHR ''-''"
        by simp
      with Cons 3(1) have "prefix (xs1 @ ''-'') old_folder"
        by (metis append.assoc append_Cons append_Nil prefixI)
      moreover from 3(1) have "xs1 \<in> set (prefixes old_folder)"
        by (metis in_set_prefixes prefixI)
      ultimately have l: "5 \<le> length xs1" and n: "\<not> suffix ''Atlas'' xs1"
        using folder_check_3 by blast+
      from 3(2) assms(2) have "suffix xs1 ''Atlas'' \<or> suffix ''Atlas'' xs1"
        by (rule suffix_same_cases)
      with n have "suffix xs1 ''Atlas''" by simp
      with l have "xs1 = ''Atlas''"
        by (intro suffix_full) simp_all
      with n show False by simp
    qed
  qed
qed


lemma update_image_url_parts:
  "update_image_url url =
     (fst (subn_atlas (str_replace old_folder new_folder url)),
      if snd (subn_atlas (str_replace old_folder new_folder url)) = 0
      then [pattern_warning url] else [])"
  by (simp add: update_image_url_def split_beta)

text \<open>
  C3: the URL of the example is rewritten to the URL the example gives, with no warning. In
  general the string returned is the result of the pattern replacement on the result of the
  folder substitution; the folder substitution leaves no occurrence of the old folder name;
  and when its result ends with \<open>Atlas\<close>, one or more decimal digits and \<open>.png\<close>, the
  string returned has a hyphen between \<open>Atlas\<close> and the digits and is otherwise the same,
  and no warning is printed.
\<close>

theorem update_image_url_rewrite:
  "update_image_url ''https://harto-atelier.github.io/atlas-offchain-images/images/Atlas0.png'' =
     (''https://harto-atelier.github.io/atlas-images-offchain/images/Atlas-0.png'', []) \<and>
   (\<forall>url. fst (update_image_url url) = fst (subn_atlas (str_replace old_folder new_folder url)) \<and>
          \<not> sublist old_folder (str_replace old_folder new_folder url)) \<and>
   (\<forall>url p ds. str_replace old_folder new_folder url = p @ ''Atlas'' @ ds @ ''.png'' \<and>
        ds \<noteq> [] \<and> list_all is_digit ds \<longrightarrow>
        update_image_url url = (p @ ''Atlas-'' @ ds @ ''.png'', []))"
proof (intro conjI allI impI)
  show "update_image_url
      ''https://harto-atelier.github.io/atlas-offchain-images/images/Atlas0.png'' =
     (''https://harto-atelier.github.io/atlas-images-offchain/images/Atlas-0.png'', [])"
    by code_simp
next
  fix url
  show "fst (update_image_url url) = fst (subn_atlas (str_replace old_folder new_folder url))"
    by (simp add: update_image_url_parts)
  show "\<not> sublist old_folder (str_replace old_folder new_folder url)"
    by (rule str_replace_folder_gone)
next
  fix url p ds
  assume a: "str_replace old_folder new_folder url = p @ ''Atlas'' @ ds @ ''.png'' \<and>
        ds \<noteq> [] \<and> list_all is_digit ds"
  then have "subn_atlas (p @ ''Atlas'' @ ds @ ''.png'' @ []) =
          (p @ ''Atlas-'' @ ds @ ''.png'' @ [], 1)"
    by (intro subn_atlas_hyphen) simp_all
  with a show "update_image_url url = (p @ ''Atlas-'' @ ds @ ''.png'', [])"
    by (simp add: update_image_url_parts)
qed

theorem update_image_url_rewrite_witness:
  "str_replace old_folder new_folder
       ''atlas-offchain-images/a/atlas-offchain-images/Atlas042.png'' =
     ''atlas-images-offchain/a/atlas-images-offchain/'' @ ''Atlas'' @ ''042'' @ ''.png'' \<and>
   ''042'' \<noteq> [] \<and> list_all is_digit ''042'' \<and>
   update_image_url ''atlas-offchain-images/a/atlas-offchain-images/Atlas042.png'' =
     (''atlas-images-offchain/a/atlas-images-offchain/Atlas-042.png'', [])"
proof -
  have a: "str_replace old_folder new_folder
       ''atlas-offchain-images/a/atlas-offchain-images/Atlas042.png'' =
     ''atlas-images-offchain/a/atlas-images-offchain/'' @ ''Atlas'' @ ''042'' @ ''.png''"
    by code_simp
  have b: "''042'' \<noteq> [] \<and> list_all is_digit ''042''"
    by (simp add: is_digit_def)
  from update_image_url_rewrite have
    "\<forall>url p ds. str_replace old_folder new_folder url = p @ ''Atlas'' @ ds @ ''.png'' \<and>
        ds \<noteq> [] \<and> list_all is_digit ds \<longrightarrow>
        update_image_url url = (p @ ''Atlas-'' @ ds @ ''.png'', [])"
    by (elim conjE)
  with a b have "update_image_url ''atlas-offchain-images/a/atlas-offchain-images/Atlas042.png'' =
     (''atlas-images-offchain/a/atlas-images-offchain/'' @ ''Atlas-'' @ ''042'' @ ''.png'', [])"
    by blast
  with a b show ?thesis by simp
qed

text \<open>
  The \<^verbatim>\<open>$\<close> of the pattern also matches before a line feed that ends the string: such a
  URL gets the hyphen too, and no warning.
\<close>

lemma update_image_url_final_newline:
  "update_image_url (''img/Atlas12.png'' @ [LF]) = (''img/Atlas-12.png'' @ [LF], [])"
  by code_simp

text \<open>
  C4: when the pattern matched in the first application (the count of \<^verbatim>\<open>re.subn\<close> is
  not 0), a second application returns the string of the first: the folder substitution
  finds nothing to replace in it and the pattern does not match it.
\<close>

theorem update_image_url_idempotent:
  assumes "snd (subn_atlas (str_replace old_folder new_folder url)) \<noteq> 0"
  shows "fst (update_image_url (fst (update_image_url url))) = fst (update_image_url url) \<and>
         str_replace old_folder new_folder (fst (update_image_url url)) =
           fst (update_image_url url) \<and>
         subn_atlas (fst (update_image_url url)) = (fst (update_image_url url), 0)"
proof -
  let ?s = "str_replace old_folder new_folder url"
  from assms subn_atlas_cases [of ?s] obtain p ds e where
    s: "?s = p @ ''Atlas'' @ ds @ ''.png'' @ e" and d: "list_all is_digit ds"
    and e: "e = [] \<or> e = [LF]"
    and r: "subn_atlas ?s = (p @ ''Atlas-'' @ ds @ ''.png'' @ e, 1)"
    by auto
  let ?r = "p @ ''Atlas-'' @ ds @ ''.png'' @ e"
  have u: "fst (update_image_url url) = ?r"
    using r by (simp add: update_image_url_parts)
  have "\<not> sublist old_folder ((p @ ''Atlas'') @ (ds @ ''.png'' @ e))"
    using str_replace_folder_gone [of url] s by simp
  then have "\<not> sublist old_folder ((p @ ''Atlas'') @ CHR ''-'' # (ds @ ''.png'' @ e))"
    by (rule hyphen_keeps_folder_gone) (simp add: suffix_def)
  then have g: "\<not> sublist old_folder ?r"
    by simp
  have o: "old_folder \<noteq> []"
    by simp
  have 1: "str_replace old_folder new_folder ?r = ?r"
    by (rule str_replace_absent [OF o g])
  have 2: "subn_atlas ?r = (?r, 0)"
  proof -
    from subn_atlas_cases [of ?r] show ?thesis
    proof
      assume "snd (subn_atlas ?r) = 0 \<and> fst (subn_atlas ?r) = ?r"
      then show ?thesis by (simp add: prod_eq_iff)
    next
      assume "\<exists>p' ds' e'. ?r = p' @ ''Atlas'' @ ds' @ ''.png'' @ e' \<and> ds' \<noteq> [] \<and>
        list_all is_digit ds' \<and> (e' = [] \<or> e' = [LF]) \<and>
        subn_atlas ?r = (p' @ ''Atlas-'' @ ds' @ ''.png'' @ e', 1)"
      then obtain p' ds' e' where eq: "?r = p' @ ''Atlas'' @ ds' @ ''.png'' @ e'"
        and d': "list_all is_digit ds'" and e': "e' = [] \<or> e' = [LF]"
        by blast
      from eq have "(p @ ''Atlas'') @ CHR ''-'' # ds @ ''.png'' @ e =
                    (p' @ ''Atla'') @ CHR ''s'' # ds' @ ''.png'' @ e'"
        by simp
      from digit_run_unique [OF this d d' _ _ e e'] have "CHR ''-'' = CHR ''s''"
        by simp
      then show ?thesis by simp
    qed
  qed
  from 1 2 have "fst (update_image_url ?r) = ?r"
    by (simp add: update_image_url_parts)
  with 1 2 show ?thesis
    unfolding u by simp
qed

theorem update_image_url_idempotent_witness:
  "snd (subn_atlas (str_replace old_folder new_folder ''atlas-offchain-images/Atlas7.png'')) \<noteq> 0 \<and>
   fst (update_image_url ''atlas-offchain-images/Atlas7.png'') = ''atlas-images-offchain/Atlas-7.png'' \<and>
   fst (update_image_url ''atlas-images-offchain/Atlas-7.png'') = ''atlas-images-offchain/Atlas-7.png''"
proof -
  have a: "subn_atlas (str_replace old_folder new_folder ''atlas-offchain-images/Atlas7.png'') =
            (''atlas-images-offchain/Atlas-7.png'', 1)"
    by code_simp
  then have b: "fst (update_image_url ''atlas-offchain-images/Atlas7.png'') =
            ''atlas-images-offchain/Atlas-7.png''"
    by (simp add: update_image_url_parts)
  from a have "snd (subn_atlas (str_replace old_folder new_folder
      ''atlas-offchain-images/Atlas7.png'')) \<noteq> 0"
    by simp
  from this update_image_url_idempotent [OF this] b show ?thesis
    by simp
qed

section \<open>Properties of the URL transformer\<close>

lemma image_url_body_skip:
  assumes "url_record_ok e" and "\<forall>url. meta_field e ''image'' = Some (JStr url) \<longrightarrow> url = []"
  shows "image_url_body k e = Inr (e, [no_image_warning k], False)"
proof -
  from assms(1) obtain d where e: "e = JObj d"
    by (cases e) (simp_all add: url_record_ok_def is_object_def)
  show ?thesis
  proof (cases "map_of d ''meta''")
    case None
    with e show ?thesis
      by (simp add: image_url_body_def dict_get_def)
  next
    case (Some m)
    with assms(1) e obtain meta where m: "m = JObj meta"
      by (cases m) (simp_all add: url_record_ok_def is_object_def field_def)
    show ?thesis
    proof (cases "map_of meta ''image''")
      case None
      with e Some m show ?thesis
        by (simp add: image_url_body_def dict_get_def)
    next
      case i: (Some v)
      with assms e Some m have "\<not> truthy v"
        by (cases v) (simp_all add: url_record_ok_def is_object_def field_def meta_field_def)
      with e Some m i show ?thesis
        by (simp add: image_url_body_def dict_get_def)
    qed
  qed
qed

lemma image_url_body_url:
  assumes "meta_field e ''image'' = Some (JStr url)" and "url \<noteq> []"
  shows "\<exists>d meta. e = JObj d \<and> map_of d ''meta'' = Some (JObj meta) \<and>
           map_of meta ''image'' = Some (JStr url) \<and>
           image_url_body k e =
             (if fst (update_image_url url) \<noteq> url
              then Inr (JObj (dict_set d ''meta''
                           (JObj (dict_set meta ''image'' (JStr (fst (update_image_url url)))))),
                        snd (update_image_url url), True)
              else Inr (e, snd (update_image_url url), False))"
proof -
  from assms(1) obtain d where e: "e = JObj d"
    by (cases e) (simp_all add: meta_field_def field_def)
  with assms(1) obtain m where m: "map_of d ''meta'' = Some m"
    by (cases "map_of d ''meta''") (simp_all add: meta_field_def field_def)
  with assms(1) e obtain meta where mm: "m = JObj meta"
    by (cases m) (simp_all add: meta_field_def field_def)
  with assms(1) e m have i: "map_of meta ''image'' = Some (JStr url)"
    by (simp add: meta_field_def field_def)
  with e m mm assms(2) show ?thesis
    by (simp add: image_url_body_def dict_get_def split_beta)
qed

lemma meta_field_updated:
  "meta_field (JObj (dict_set d ''meta'' (JObj (dict_set meta ''image'' v)))) key =
     (if key = ''image'' then Some v else field (JObj meta) key)"
  by (simp add: meta_field_def field_dict_set)

lemma image_url_body_ok:
  assumes "url_record_ok e"
  shows "\<exists>e' ls ch. image_url_body k e = Inr (e', ls, ch) \<and> (ch \<longleftrightarrow> e' \<noteq> e) \<and>
           (ch \<longleftrightarrow> meta_field e' ''image'' \<noteq> meta_field e ''image'')"
proof (cases "\<forall>url. meta_field e ''image'' = Some (JStr url) \<longrightarrow> url = []")
  case True
  from image_url_body_skip [OF assms True] show ?thesis by simp
next
  case False
  then obtain url where u: "meta_field e ''image'' = Some (JStr url)" and n: "url \<noteq> []"
    by blast
  from image_url_body_url [OF u n, of k] obtain d meta where
    b: "image_url_body k e =
             (if fst (update_image_url url) \<noteq> url
              then Inr (JObj (dict_set d ''meta''
                           (JObj (dict_set meta ''image'' (JStr (fst (update_image_url url)))))),
                        snd (update_image_url url), True)
              else Inr (e, snd (update_image_url url), False))"
    by blast
  show ?thesis
  proof (cases "fst (update_image_url url) = url")
    case True
    with b show ?thesis by simp
  next
    case ne: False
    let ?e' = "JObj (dict_set d ''meta''
                 (JObj (dict_set meta ''image'' (JStr (fst (update_image_url url))))))"
    have "meta_field ?e' ''image'' = Some (JStr (fst (update_image_url url)))"
      by (simp add: meta_field_updated)
    with u ne have "meta_field ?e' ''image'' \<noteq> meta_field e ''image''"
      by simp
    moreover from this have "?e' \<noteq> e"
      by auto
    ultimately show ?thesis using b ne by simp
  qed
qed


lemma meta_keys_updated:
  "map_of d ''meta'' = Some (JObj meta) \<Longrightarrow> map_of meta ''image'' \<noteq> None \<Longrightarrow>
   meta_keys (JObj (dict_set d ''meta'' (JObj (dict_set meta ''image'' v)))) =
     meta_keys (JObj d)"
  by (simp add: meta_keys_def field_dict_set keys_dict_set) (simp add: field_def)

lemma image_url_body_frame:
  assumes "url_record_ok e" and "image_url_body k e = Inr (e', ls, ch)"
  shows "(\<forall>key. key \<noteq> ''meta'' \<longrightarrow> field e' key = field e key) \<and> keys_of e' = keys_of e \<and>
         (\<forall>key. key \<noteq> ''image'' \<longrightarrow> meta_field e' key = meta_field e key) \<and>
         meta_keys e' = meta_keys e"
proof (cases "\<forall>url. meta_field e ''image'' = Some (JStr url) \<longrightarrow> url = []")
  case True
  from image_url_body_skip [OF assms(1) True, of k] assms(2) show ?thesis by simp
next
  case False
  then obtain url where u: "meta_field e ''image'' = Some (JStr url)" and n: "url \<noteq> []"
    by blast
  from image_url_body_url [OF u n, of k] obtain d meta where
    e: "e = JObj d" and m: "map_of d ''meta'' = Some (JObj meta)"
    and i: "map_of meta ''image'' = Some (JStr url)"
    and b: "image_url_body k e =
             (if fst (update_image_url url) \<noteq> url
              then Inr (JObj (dict_set d ''meta''
                           (JObj (dict_set meta ''image'' (JStr (fst (update_image_url url)))))),
                        snd (update_image_url url), True)
              else Inr (e, snd (update_image_url url), False))"
    by blast
  show ?thesis
  proof (cases "fst (update_image_url url) = url")
    case True
    with b assms(2) show ?thesis by simp
  next
    case ne: False
    with b assms(2) have e': "e' = JObj (dict_set d ''meta''
                 (JObj (dict_set meta ''image'' (JStr (fst (update_image_url url))))))"
      by simp
    have 1: "\<forall>key. key \<noteq> ''meta'' \<longrightarrow> field e' key = field e key"
      unfolding e' e by (simp add: field_dict_set)
    have 2: "keys_of e' = keys_of e"
      unfolding e' e using m by (simp add: keys_dict_set)
    have 3: "\<forall>key. key \<noteq> ''image'' \<longrightarrow> meta_field e' key = meta_field e key"
      unfolding e' e using m by (simp add: meta_field_updated) (simp add: meta_field_def field_def)
    have 4: "meta_keys e' = meta_keys e"
      unfolding e' e using m i by (simp add: meta_keys_updated)
    from 1 2 3 4 show ?thesis by blast
  qed
qed

lemma replace_image_urls_loop_ended:
  assumes q: "\<And>k e. url_record_ok e \<Longrightarrow>
              \<exists>e' ls ch. image_url_body k e = Inr (e', ls, ch) \<and> (ch \<longleftrightarrow> Q e e')"
  shows "list_all url_record_ok data \<Longrightarrow>
         length (entries_after (replace_image_urls_loop k cnt data)) = length data \<and>
         ended (replace_image_urls_loop k cnt data) =
           Returned (cnt + length (filter (\<lambda>(e, e'). Q e e')
             (zip data (entries_after (replace_image_urls_loop k cnt data)))))"
proof (induction data arbitrary: k cnt)
  case Nil
  then show ?case by (simp add: entries_after_def ended_def)
next
  case (Cons e data)
  from Cons.prems have "url_record_ok e" and r: "list_all url_record_ok data"
    by simp_all
  from q [OF this(1), of k] obtain e' ls ch where
    b: "image_url_body k e = Inr (e', ls, ch)" and c: "ch \<longleftrightarrow> Q e e'"
    by blast
  from Cons.IH [OF r, of "Suc k" "if ch then Suc cnt else cnt"] b c show ?case
    by (simp add: step_entry_parts)
qed

lemma replace_image_urls_loop_nth:
  "list_all url_record_ok data \<Longrightarrow> i < length data \<Longrightarrow>
   \<exists>ls ch. image_url_body (k + i) (data ! i) =
            Inr (entries_after (replace_image_urls_loop k cnt data) ! i, ls, ch) \<and>
          set ls \<subseteq> set (printed (replace_image_urls_loop k cnt data))"
proof (induction data arbitrary: k cnt i)
  case Nil
  then show ?case by simp
next
  case (Cons e data)
  from Cons.prems have "url_record_ok e" and r: "list_all url_record_ok data"
    by simp_all
  from image_url_body_ok [OF this(1), of k] obtain e' ls ch where
    b: "image_url_body k e = Inr (e', ls, ch)"
    by blast
  show ?case
  proof (cases i)
    case 0
    with b show ?thesis by (simp add: step_entry_parts)
  next
    case (Suc j)
    with Cons.prems have j: "j < length data"
      by simp
    from Cons.IH [OF r j, of "Suc k" "if ch then Suc cnt else cnt"] Suc b show ?thesis
      by (auto simp: step_entry_parts)
  qed
qed


lemma replace_image_urls_at_url:
  assumes "list_all url_record_ok data" and "i < length data"
    and "meta_field (data ! i) ''image'' = Some (JStr url)" and "url \<noteq> []"
  shows "meta_field (entries_after (replace_image_urls_loop k cnt data) ! i) ''image'' =
           Some (JStr (fst (update_image_url url))) \<and>
         (fst (update_image_url url) = url \<longrightarrow>
            entries_after (replace_image_urls_loop k cnt data) ! i = data ! i) \<and>
         set (snd (update_image_url url)) \<subseteq> set (printed (replace_image_urls_loop k cnt data))"
proof -
  let ?e' = "entries_after (replace_image_urls_loop k cnt data) ! i"
  from replace_image_urls_loop_nth [OF assms(1,2), of k cnt] obtain ls ch where
    b: "image_url_body (k + i) (data ! i) = Inr (?e', ls, ch)"
    and s: "set ls \<subseteq> set (printed (replace_image_urls_loop k cnt data))"
    by blast
  from image_url_body_url [OF assms(3,4), of "k + i"] obtain d meta where
    c: "image_url_body (k + i) (data ! i) =
             (if fst (update_image_url url) \<noteq> url
              then Inr (JObj (dict_set d ''meta''
                           (JObj (dict_set meta ''image'' (JStr (fst (update_image_url url)))))),
                        snd (update_image_url url), True)
              else Inr (data ! i, snd (update_image_url url), False))"
    by blast
  show ?thesis
  proof (cases "fst (update_image_url url) = url")
    case True
    with b c have "?e' = data ! i" and "ls = snd (update_image_url url)"
      by simp_all
    with True s assms(3) show ?thesis by simp
  next
    case False
    with b c have "?e' = JObj (dict_set d ''meta''
                      (JObj (dict_set meta ''image'' (JStr (fst (update_image_url url))))))"
      and "ls = snd (update_image_url url)"
      by simp_all
    with False s show ?thesis by (simp add: meta_field_updated)
  qed
qed

lemma replace_image_urls_at_skip:
  assumes "list_all url_record_ok data" and "i < length data"
    and "\<forall>url. meta_field (data ! i) ''image'' = Some (JStr url) \<longrightarrow> url = []"
  shows "entries_after (replace_image_urls_loop k cnt data) ! i = data ! i \<and>
         no_image_warning (k + i) \<in> set (printed (replace_image_urls_loop k cnt data))"
proof -
  from assms(1,2) have o: "url_record_ok (data ! i)"
    by (simp add: list_all_length)
  from replace_image_urls_loop_nth [OF assms(1,2), of k cnt]
    image_url_body_skip [OF o assms(3), of "k + i"]
  show ?thesis by auto
qed

text \<open>
  What the transformer does on records that fit the URL tool, with the match decided by
  \<^verbatim>\<open>re.subn\<close> itself: \<^verbatim>\<open>replace_image_urls\<close> returns, and the count returned is the
  number of records whose \<open>meta.image\<close> differs from the input. A record with a non-empty
  URL has the rewritten URL as its image afterwards, and is unchanged when the rewritten
  URL is the URL itself. When \<^verbatim>\<open>re.subn\<close> replaces nothing (its count is 0), the warning
  for the URL is printed and the image is the result of the folder substitution alone.
\<close>

theorem replace_image_urls_count:
  assumes "list_all url_record_ok json_data"
  shows "ended (replace_image_urls json_data) =
           Returned (length (filter (\<lambda>(e, e'). meta_field e' ''image'' \<noteq> meta_field e ''image'')
             (zip json_data (entries_after (replace_image_urls json_data))))) \<and>
         (\<forall>i<length json_data. \<forall>url.
            meta_field (json_data ! i) ''image'' = Some (JStr url) \<and> url \<noteq> [] \<longrightarrow>
            meta_field (entries_after (replace_image_urls json_data) ! i) ''image'' =
              Some (JStr (fst (update_image_url url))) \<and>
            (fst (update_image_url url) = url \<longrightarrow>
               entries_after (replace_image_urls json_data) ! i = json_data ! i) \<and>
            (snd (subn_atlas (str_replace old_folder new_folder url)) = 0 \<longrightarrow>
               pattern_warning url \<in> set (printed (replace_image_urls json_data)) \<and>
               meta_field (entries_after (replace_image_urls json_data) ! i) ''image'' =
                 Some (JStr (str_replace old_folder new_folder url))))"
proof (intro conjI allI impI)
  have "\<And>k e. url_record_ok e \<Longrightarrow> \<exists>e' ls ch. image_url_body k e = Inr (e', ls, ch) \<and>
          (ch \<longleftrightarrow> meta_field e' ''image'' \<noteq> meta_field e ''image'')"
    using image_url_body_ok by blast
  from replace_image_urls_loop_ended
    [of "\<lambda>e e'. meta_field e' ''image'' \<noteq> meta_field e ''image''", OF this assms, of 1 0]
  show "ended (replace_image_urls json_data) =
           Returned (length (filter (\<lambda>(e, e'). meta_field e' ''image'' \<noteq> meta_field e ''image'')
             (zip json_data (entries_after (replace_image_urls json_data)))))"
    by (simp add: replace_image_urls_def)
next
  fix i url
  assume i: "i < length json_data"
    and u: "meta_field (json_data ! i) ''image'' = Some (JStr url) \<and> url \<noteq> []"
  note a = replace_image_urls_at_url [OF assms i, of url 1 0, folded replace_image_urls_def]
  from a u show "meta_field (entries_after (replace_image_urls json_data) ! i) ''image'' =
              Some (JStr (fst (update_image_url url)))"
    by blast
  {
    assume "fst (update_image_url url) = url"
    with a u show "entries_after (replace_image_urls json_data) ! i = json_data ! i"
      by blast
  }
  {
    assume z: "snd (subn_atlas (str_replace old_folder new_folder url)) = 0"
    then have w: "snd (update_image_url url) = [pattern_warning url]"
      by (simp add: update_image_url_parts)
    with a u show "pattern_warning url \<in> set (printed (replace_image_urls json_data))"
      by auto
    from z subn_atlas_cases [of "str_replace old_folder new_folder url"]
    have "fst (update_image_url url) = str_replace old_folder new_folder url"
      by (auto simp: update_image_url_parts)
    with a u show "meta_field (entries_after (replace_image_urls json_data) ! i) ''image'' =
                 Some (JStr (str_replace old_folder new_folder url))"
      by auto
  }
qed


theorem replace_image_urls_count_witness:
  "list_all url_record_ok
     [JObj [(''id'', JInt 5), (''meta'', JObj [])],
      JObj [(''meta'', JObj [(''image'', JStr ''atlas-offchain-images/x.png'')])],
      JObj [(''meta'', JObj [(''image'', JStr ''a/Atlas-3.png'')])]] \<and>
   replace_image_urls
     [JObj [(''id'', JInt 5), (''meta'', JObj [])],
      JObj [(''meta'', JObj [(''image'', JStr ''atlas-offchain-images/x.png'')])],
      JObj [(''meta'', JObj [(''image'', JStr ''a/Atlas-3.png'')])]] =
   ([JObj [(''id'', JInt 5), (''meta'', JObj [])],
     JObj [(''meta'', JObj [(''image'', JStr ''atlas-images-offchain/x.png'')])],
     JObj [(''meta'', JObj [(''image'', JStr ''a/Atlas-3.png'')])]],
    [no_image_warning 1, pattern_warning ''atlas-offchain-images/x.png'',
     pattern_warning ''a/Atlas-3.png''],
    Returned 1)"
proof -
  let ?d = "[JObj [(''id'', JInt 5), (''meta'', JObj [])],
      JObj [(''meta'', JObj [(''image'', JStr ''atlas-offchain-images/x.png'')])],
      JObj [(''meta'', JObj [(''image'', JStr ''a/Atlas-3.png'')])]]"
  have ok: "list_all url_record_ok ?d"
    by (simp add: url_record_ok_def is_object_def field_def)
  have u1: "update_image_url ''atlas-offchain-images/x.png'' =
      (''atlas-images-offchain/x.png'', [pattern_warning ''atlas-offchain-images/x.png''])"
    by code_simp
  have u2: "update_image_url ''a/Atlas-3.png'' =
      (''a/Atlas-3.png'', [pattern_warning ''a/Atlas-3.png''])"
    by code_simp
  have ev: "entries_after (replace_image_urls ?d) =
      [JObj [(''id'', JInt 5), (''meta'', JObj [])],
       JObj [(''meta'', JObj [(''image'', JStr ''atlas-images-offchain/x.png'')])],
       JObj [(''meta'', JObj [(''image'', JStr ''a/Atlas-3.png'')])]] \<and>
     printed (replace_image_urls ?d) =
      [no_image_warning 1, pattern_warning ''atlas-offchain-images/x.png'',
       pattern_warning ''a/Atlas-3.png'']"
    by (simp add: replace_image_urls_def image_url_body_def dict_get_def dict_set_def u1 u2
          step_entry_def entries_after_def printed_def)
  from replace_image_urls_count [OF ok] ev
  have "ended (replace_image_urls ?d) = Returned 1"
    by (simp add: meta_field_def field_def)
  with ok ev show ?thesis
    by (simp add: entries_after_def printed_def ended_def prod_eq_iff)
qed

text \<open>
  C6: a URL that fails the end-anchored pattern is to get a warning and keep the result of
  the folder substitution. The code does not do so for a URL whose last character is a
  line feed after \<open>Atlas\<close>, digits and \<open>.png\<close>. The record below fits the URL tool; its
  URL does not end with \<open>.png\<close>, so it fails the pattern, and the folder substitution
  leaves it as it is. Yet \<^verbatim>\<open>replace_image_urls\<close> puts the hyphen in, prints no warning and
  counts the record as updated: the \<^verbatim>\<open>$\<close> of the pattern, which the comment in
  \<^verbatim>\<open>update_image_url\<close> says "ensures the string ends with '.png'", also matches before
  a final line feed.
\<close>

theorem replace_image_urls_final_newline:
  "\<not> suffix ''.png'' (''img/Atlas12.png'' @ [LF]) \<and>
   url_record_ok (JObj [(''meta'', JObj [(''image'', JStr (''img/Atlas12.png'' @ [LF]))])]) \<and>
   str_replace old_folder new_folder (''img/Atlas12.png'' @ [LF]) = ''img/Atlas12.png'' @ [LF] \<and>
   replace_image_urls [JObj [(''meta'', JObj [(''image'', JStr (''img/Atlas12.png'' @ [LF]))])]] =
     ([JObj [(''meta'', JObj [(''image'', JStr (''img/Atlas-12.png'' @ [LF]))])]], [], Returned 1)"
proof (intro conjI)
  show "\<not> suffix ''.png'' (''img/Atlas12.png'' @ [LF])"
    by (simp add: suffix_def)
  show "url_record_ok (JObj [(''meta'', JObj [(''image'', JStr (''img/Atlas12.png'' @ [LF]))])])"
    by (simp add: url_record_ok_def is_object_def field_def)
  show "str_replace old_folder new_folder (''img/Atlas12.png'' @ [LF]) = ''img/Atlas12.png'' @ [LF]"
    by code_simp
  have u: "update_image_url (''img/Atlas12.png'' @ [LF]) = (''img/Atlas-12.png'' @ [LF], [])"
    by code_simp
  show "replace_image_urls [JObj [(''meta'', JObj [(''image'', JStr (''img/Atlas12.png'' @ [LF]))])]] =
     ([JObj [(''meta'', JObj [(''image'', JStr (''img/Atlas-12.png'' @ [LF]))])]], [], Returned 1)"
    using u by (simp add: replace_image_urls_def image_url_body_def dict_get_def dict_set_def
          step_entry_def)
qed

text \<open>
  C10: on records that fit the URL tool, \<^verbatim>\<open>replace_image_urls\<close> returns as many records
  as it got, record \<open>i\<close> of the result coming from record \<open>i\<close> of the input: every key of
  the record other than \<open>meta\<close>, and every key of its \<open>meta\<close> other than \<open>image\<close>, has
  its input value, and the keys of both are in their input order. A record whose image is
  the empty string, like one with no image, is unchanged and gets the warning with its
  1-based index; the count returned is the number of records that changed, so it does not
  include them.
\<close>

theorem replace_image_urls_frame:
  assumes "list_all url_record_ok json_data"
  shows "length (entries_after (replace_image_urls json_data)) = length json_data \<and>
         ended (replace_image_urls json_data) =
           Returned (length (filter (\<lambda>(e, e'). e' \<noteq> e)
             (zip json_data (entries_after (replace_image_urls json_data))))) \<and>
         (\<forall>i<length json_data.
            (\<forall>key. key \<noteq> ''meta'' \<longrightarrow>
               field (entries_after (replace_image_urls json_data) ! i) key =
               field (json_data ! i) key) \<and>
            keys_of (entries_after (replace_image_urls json_data) ! i) = keys_of (json_data ! i) \<and>
            (\<forall>key. key \<noteq> ''image'' \<longrightarrow>
               meta_field (entries_after (replace_image_urls json_data) ! i) key =
               meta_field (json_data ! i) key) \<and>
            meta_keys (entries_after (replace_image_urls json_data) ! i) =
              meta_keys (json_data ! i) \<and>
            (meta_field (json_data ! i) ''image'' = None \<or>
             meta_field (json_data ! i) ''image'' = Some (JStr []) \<longrightarrow>
               entries_after (replace_image_urls json_data) ! i = json_data ! i \<and>
               no_image_warning (Suc i) \<in> set (printed (replace_image_urls json_data))))"
proof -
  let ?r = "replace_image_urls_loop 1 0 json_data"
  have "\<And>k e. url_record_ok e \<Longrightarrow> \<exists>e' ls ch. image_url_body k e = Inr (e', ls, ch) \<and>
          (ch \<longleftrightarrow> e' \<noteq> e)"
    using image_url_body_ok by blast
  from replace_image_urls_loop_ended [of "\<lambda>e e'. e' \<noteq> e", OF this assms, of 1 0]
  have 1: "length (entries_after ?r) = length json_data \<and>
         ended ?r = Returned (length (filter (\<lambda>(e, e'). e' \<noteq> e)
             (zip json_data (entries_after ?r))))"
    by simp
  have 2: "\<forall>i<length json_data.
            (\<forall>key. key \<noteq> ''meta'' \<longrightarrow> field (entries_after ?r ! i) key = field (json_data ! i) key) \<and>
            keys_of (entries_after ?r ! i) = keys_of (json_data ! i) \<and>
            (\<forall>key. key \<noteq> ''image'' \<longrightarrow>
               meta_field (entries_after ?r ! i) key = meta_field (json_data ! i) key) \<and>
            meta_keys (entries_after ?r ! i) = meta_keys (json_data ! i) \<and>
            (meta_field (json_data ! i) ''image'' = None \<or>
             meta_field (json_data ! i) ''image'' = Some (JStr []) \<longrightarrow>
               entries_after ?r ! i = json_data ! i \<and>
               no_image_warning (Suc i) \<in> set (printed ?r))"
  proof (intro allI impI)
    fix i assume i: "i < length json_data"
    from assms i have o: "url_record_ok (json_data ! i)"
      by (simp add: list_all_length)
    from replace_image_urls_loop_nth [OF assms i, of 1 0] obtain ls ch where
      b: "image_url_body (1 + i) (json_data ! i) = Inr (entries_after ?r ! i, ls, ch)"
      by blast
    note f = image_url_body_frame [OF o b]
    have "meta_field (json_data ! i) ''image'' = None \<or>
          meta_field (json_data ! i) ''image'' = Some (JStr []) \<longrightarrow>
            entries_after ?r ! i = json_data ! i \<and> no_image_warning (Suc i) \<in> set (printed ?r)"
    proof
      assume "meta_field (json_data ! i) ''image'' = None \<or>
          meta_field (json_data ! i) ''image'' = Some (JStr [])"
      then have "\<forall>url. meta_field (json_data ! i) ''image'' = Some (JStr url) \<longrightarrow> url = []"
        by auto
      from replace_image_urls_at_skip [OF assms i this, of 1 0]
      show "entries_after ?r ! i = json_data ! i \<and> no_image_warning (Suc i) \<in> set (printed ?r)"
        by simp
    qed
    with f show "(\<forall>key. key \<noteq> ''meta'' \<longrightarrow> field (entries_after ?r ! i) key = field (json_data ! i) key) \<and>
            keys_of (entries_after ?r ! i) = keys_of (json_data ! i) \<and>
            (\<forall>key. key \<noteq> ''image'' \<longrightarrow>
               meta_field (entries_after ?r ! i) key = meta_field (json_data ! i) key) \<and>
            meta_keys (entries_after ?r ! i) = meta_keys (json_data ! i) \<and>
            (meta_field (json_data ! i) ''image'' = None \<or>
             meta_field (json_data ! i) ''image'' = Some (JStr []) \<longrightarrow>
               entries_after ?r ! i = json_data ! i \<and>
               no_image_warning (Suc i) \<in> set (printed ?r))"
      by blast
  qed
  from 1 2 show ?thesis
    unfolding replace_image_urls_def by blast
qed

theorem replace_image_urls_frame_witness:
  "list_all url_record_ok
     [JObj [(''id'', JInt 5), (''meta'', JObj [])],
      JObj [(''id'', JInt 6), (''meta'', JObj [(''image'', JStr []), (''name'', JStr ''n'')])],
      JObj [(''id'', JInt 7),
            (''meta'', JObj [(''name'', JStr ''m''), (''image'', JStr ''Atlas3.png'')])]] \<and>
   replace_image_urls
     [JObj [(''id'', JInt 5), (''meta'', JObj [])],
      JObj [(''id'', JInt 6), (''meta'', JObj [(''image'', JStr []), (''name'', JStr ''n'')])],
      JObj [(''id'', JInt 7),
            (''meta'', JObj [(''name'', JStr ''m''), (''image'', JStr ''Atlas3.png'')])]] =
   ([JObj [(''id'', JInt 5), (''meta'', JObj [])],
     JObj [(''id'', JInt 6), (''meta'', JObj [(''image'', JStr []), (''name'', JStr ''n'')])],
     JObj [(''id'', JInt 7),
           (''meta'', JObj [(''name'', JStr ''m''), (''image'', JStr ''Atlas-3.png'')])]],
    [no_image_warning 1, no_image_warning 2],
    Returned 1)"
proof -
  let ?d = "[JObj [(''id'', JInt 5), (''meta'', JObj [])],
      JObj [(''id'', JInt 6), (''meta'', JObj [(''image'', JStr []), (''name'', JStr ''n'')])],
      JObj [(''id'', JInt 7),
            (''meta'', JObj [(''name'', JStr ''m''), (''image'', JStr ''Atlas3.png'')])]]"
  have ok: "list_all url_record_ok ?d"
    by (simp add: url_record_ok_def is_object_def field_def)
  have u: "update_image_url ''Atlas3.png'' = (''Atlas-3.png'', [])"
    by code_simp
  have ev: "entries_after (replace_image_urls ?d) =
      [JObj [(''id'', JInt 5), (''meta'', JObj [])],
       JObj [(''id'', JInt 6), (''meta'', JObj [(''image'', JStr []), (''name'', JStr ''n'')])],
       JObj [(''id'', JInt 7),
             (''meta'', JObj [(''name'', JStr ''m''), (''image'', JStr ''Atlas-3.png'')])]] \<and>
     printed (replace_image_urls ?d) = [no_image_warning 1, no_image_warning 2]"
    by (simp add: replace_image_urls_def image_url_body_def dict_get_def dict_set_def u
          step_entry_def entries_after_def printed_def numeral_2_eq_2)
  from replace_image_urls_frame [OF ok] ev
  have "ended (replace_image_urls ?d) = Returned 1"
    by simp
  with ok ev show ?thesis
    by (simp add: entries_after_def printed_def ended_def prod_eq_iff)
qed

end
